theory Spec2Isabelle
  imports Complex_Main "HOL-Library.Word" "HOL-Library.FSet"
begin

section \<open>The news collector of \<^verbatim>\<open>collectors.py\<close>\<close>

text \<open>
  The development embeds the two classes of \<^verbatim>\<open>src/collectors.py\<close>: \<^verbatim>\<open>News\<close>, which
  extracts one article from a result element, and \<^verbatim>\<open>APNewsCollector\<close>, which filters
  the result list and scans it page by page.

  The browser, the calendar, the hash function and the clock are libraries outside the
  repository. What they answer is an input of the model: a result element carries, for
  each field, the outcome of every successive lookup; a page carries its elements and the
  text of its page counter; the hash and the calendar are function parameters. The
  calls of these libraries are taken to return; of their exceptions the model has the two
  that \<^verbatim>\<open>News\<close> catches.

  A Python \<^verbatim>\<open>str\<close> is a \<^typ>\<open>string\<close>: one \<^typ>\<open>char\<close> per code point, which covers the
  code points below 256. The functions that only compare characters are polymorphic in
  the element type.
\<close>

subsection \<open>Built-in string operations\<close>

text \<open>
  \<^verbatim>\<open>s.startswith(sub)\<close>, written out so that it evaluates on literals.
\<close>

fun startswith :: "'a list \<Rightarrow> 'a list \<Rightarrow> bool" where
  "startswith s [] = True"
| "startswith [] (p # ps) = False"
| "startswith (c # cs) (p # ps) = (c = p \<and> startswith cs ps)"

text \<open>
  \<^verbatim>\<open>s.count(sub)\<close> for a non-empty \<^verbatim>\<open>sub\<close>: the scan goes left to right; where \<^verbatim>\<open>sub\<close>
  starts it is counted and the scan resumes behind it, elsewhere the scan moves on by
  one character.
\<close>

function count_scan :: "'a list \<Rightarrow> 'a list \<Rightarrow> nat" where
  "count_scan [] sub = 0"
| "count_scan (c # cs) sub =
     (if sub \<noteq> [] \<and> startswith (c # cs) sub
      then Suc (count_scan (drop (length sub) (c # cs)) sub)
      else count_scan cs sub)"
  by pat_completeness auto
termination
  by (relation "measure (\<lambda>(s, sub). length s)") auto

text \<open>
  \<^verbatim>\<open>s.count(sub)\<close>: the empty string is counted once at every position, the end
  included.
\<close>

definition str_count :: "'a list \<Rightarrow> 'a list \<Rightarrow> int" where
  "str_count s sub = (if sub = [] then int (length s) + 1 else int (count_scan s sub))"


text \<open>
  The exceptions that the code of the repository itself can raise: unpacking a list of
  the wrong length, splitting on an empty separator, and reading an attribute that no
  statement has assigned.
\<close>

datatype error = ValueError | AttributeError

text \<open>
  \<^verbatim>\<open>s.split(sep)\<close>: the pieces between the successive occurrences of \<^verbatim>\<open>sep\<close>, found
  left to right; \<^verbatim>\<open>piece\<close> is what has been read since the last separator.
\<close>

function split_scan :: "'a list \<Rightarrow> 'a list \<Rightarrow> 'a list \<Rightarrow> 'a list list" where
  "split_scan sep piece [] = [piece]"
| "split_scan sep piece (c # cs) =
     (if sep \<noteq> [] \<and> startswith (c # cs) sep
      then piece # split_scan sep [] (drop (length sep) (c # cs))
      else split_scan sep (piece @ [c]) cs)"
  by pat_completeness auto
termination
  by (relation "measure (\<lambda>(sep, piece, s). length s)") auto

definition str_split :: "'a list \<Rightarrow> 'a list \<Rightarrow> error + 'a list list" where
  "str_split s sep = (if sep = [] then Inl ValueError else Inr (split_scan sep [] s))"

text \<open>\<^verbatim>\<open>a, b = xs\<close>\<close>

fun unpack2 :: "'a list \<Rightarrow> error + 'a \<times> 'a" where
  "unpack2 [a, b] = Inr (a, b)"
| "unpack2 xs = Inl ValueError"

text \<open>
  \<^verbatim>\<open>a < b\<close> on two strings: the order of the first code point that differs, a proper
  prefix being smaller.
\<close>

fun str_less :: "string \<Rightarrow> string \<Rightarrow> bool" where
  "str_less [] [] = False"
| "str_less [] (b # bs) = True"
| "str_less (a # as) [] = False"
| "str_less (a # as) (b # bs) =
     ((of_char a :: nat) < of_char b \<or> (a = b \<and> str_less as bs))"

text \<open>
  \<^verbatim>\<open>s.lower()\<close> on the code points below 256: the letters A to Z and the accented
  capitals from 192 to 222, the multiplication sign 215 apart, move up by 32.
\<close>

definition lower_char :: "char \<Rightarrow> char" where
  "lower_char c =
     (let n = (of_char c :: nat)
      in if (65 \<le> n \<and> n \<le> 90) \<or> (192 \<le> n \<and> n \<le> 222 \<and> n \<noteq> 215)
         then char_of (n + 32) else c)"

definition lower :: "string \<Rightarrow> string" where
  "lower s = map lower_char s"

subsection \<open>Regular expressions\<close>

text \<open>
  The part of the syntax of \<^verbatim>\<open>re\<close> that the currency pattern uses: literal characters,
  \<^verbatim>\<open>\d\<close>, \<^verbatim>\<open>\D\<close>, a character range, \<^verbatim>\<open>^\<close>, \<^verbatim>\<open>$\<close>, concatenation, \<^verbatim>\<open>|\<close>, \<^verbatim>\<open>*\<close> and
  \<^verbatim>\<open>{m,n}\<close>.
\<close>

datatype regex =
    Eps
  | Chr char
  | Digit
  | NonDigit
  | Range char char
  | Bol
  | Eol
  | Cat regex regex
  | Alt regex regex
  | Star regex
  | Repeat regex nat nat

text \<open>
  A position in the subject string: whether it is the start of the string, and what is
  left to read.
\<close>

type_synonym cursor = "bool \<times> string"

definition digit :: "char \<Rightarrow> bool" where
  "digit c = (c \<in> set ''0123456789'')"

fun step_char :: "(char \<Rightarrow> bool) \<Rightarrow> cursor \<Rightarrow> cursor list" where
  "step_char p (b, []) = []"
| "step_char p (b, c # cs) = (if p c then [(False, cs)] else [])"

text \<open>
  \<^verbatim>\<open>r*\<close>, where \<open>f\<close> matches \<^verbatim>\<open>r\<close> once: the longer matches come first, and an iteration
  that reads nothing is not repeated. Every iteration that counts shortens what is left,
  so its length bounds the number of iterations.
\<close>

fun star_from :: "(cursor \<Rightarrow> cursor list) \<Rightarrow> nat \<Rightarrow> cursor \<Rightarrow> cursor list" where
  "star_from f 0 cur = [cur]"
| "star_from f (Suc n) cur =
     concat (map (star_from f n)
       (filter (\<lambda>nxt. length (snd nxt) < length (snd cur)) (f cur))) @ [cur]"

text \<open>\<^verbatim>\<open>r{m,n}\<close>\<close>

fun repeat_from :: "(cursor \<Rightarrow> cursor list) \<Rightarrow> nat \<Rightarrow> nat \<Rightarrow> cursor \<Rightarrow> cursor list" where
  "repeat_from f 0 0 cur = [cur]"
| "repeat_from f 0 (Suc n) cur = concat (map (repeat_from f 0 n) (f cur)) @ [cur]"
| "repeat_from f (Suc m) 0 cur = []"
| "repeat_from f (Suc m) (Suc n) cur = concat (map (repeat_from f m n) (f cur))"

text \<open>
  The positions where a match of the expression that starts at \<open>cur\<close> can end. \<^verbatim>\<open>$\<close>
  holds at the end of the string and before a newline that ends the string; \<^verbatim>\<open>^\<close> holds
  at the start only (no flag is set).
\<close>

fun rmatch :: "regex \<Rightarrow> cursor \<Rightarrow> cursor list" where
  "rmatch Eps cur = [cur]"
| "rmatch (Chr c) cur = step_char (\<lambda>x. x = c) cur"
| "rmatch Digit cur = step_char digit cur"
| "rmatch NonDigit cur = step_char (\<lambda>x. \<not> digit x) cur"
| "rmatch (Range lo hi) cur =
     step_char (\<lambda>x. of_char lo \<le> (of_char x :: nat) \<and> (of_char x :: nat) \<le> of_char hi) cur"
| "rmatch Bol cur = (if fst cur then [cur] else [])"
| "rmatch Eol cur = (if snd cur = [] \<or> snd cur = [CHR 0x0A] then [cur] else [])"
| "rmatch (Cat r1 r2) cur = concat (map (rmatch r2) (rmatch r1 cur))"
| "rmatch (Alt r1 r2) cur = rmatch r1 cur @ rmatch r2 cur"
| "rmatch (Star r) cur = star_from (rmatch r) (length (snd cur)) cur"
| "rmatch (Repeat r m n) cur = repeat_from (rmatch r) m n cur"

text \<open>
  \<^verbatim>\<open>re.search(pattern, s)\<close>: the first position from the left where the pattern matches,
  \<open>None\<close> when there is none. Of the match object only the start is kept.
\<close>

fun search_at :: "regex \<Rightarrow> nat \<Rightarrow> bool \<Rightarrow> string \<Rightarrow> nat option" where
  "search_at r k b [] = (if rmatch r (b, []) \<noteq> [] then Some k else None)"
| "search_at r k b (c # cs) =
     (if rmatch r (b, c # cs) \<noteq> [] then Some k else search_at r (Suc k) False cs)"

definition re_search :: "regex \<Rightarrow> string \<Rightarrow> nat option" where
  "re_search r s = search_at r 0 True s"

fun lit :: "string \<Rightarrow> regex" where
  "lit [] = Eps"
| "lit [c] = Chr c"
| "lit (c # cs) = Cat (Chr c) (lit cs)"

fun cat :: "regex list \<Rightarrow> regex" where
  "cat [] = Eps"
| "cat [r] = r"
| "cat (r # rs) = Cat r (cat rs)"

text \<open>\<^verbatim>\<open>"|".join(patterns)\<close>\<close>

fun join_alt :: "regex list \<Rightarrow> regex" where
  "join_alt [] = Eps"
| "join_alt [r] = r"
| "join_alt (r # rs) = Alt r (join_alt rs)"

subsection \<open>The libraries around the collector\<close>

type_synonym bytes = "8 word list"

text \<open>
  What one lookup in the page answers: the value, or one of the two exceptions of the
  browser that \<^verbatim>\<open>News\<close> catches.
\<close>

datatype 'a lookup = Found 'a | NoSuchElementException | StaleElementReferenceException

text \<open>
  The library functions whose result the collector uses: \<^verbatim>\<open>hashlib.sha1(b).digest()\<close>,
  \<^verbatim>\<open>datetime.fromtimestamp(t).strftime(DATE_FORMAT)\<close> and
  \<^verbatim>\<open>Calendar.time_difference_in_months\<close>.
\<close>

record library =
  sha1 :: "bytes \<Rightarrow> bytes"
  fromtimestamp_strftime :: "int \<Rightarrow> string"
  time_difference_in_months :: "string \<Rightarrow> string \<Rightarrow> int"

text \<open>
  One result element of the page. For every field, the answer of the page to the first,
  second, ... lookup of that field: the text of the title, the integer read from the
  \<^verbatim>\<open>data-timestamp\<close> attribute, the text of the description, the screenshot of the
  image. The attribute is taken to hold the digits of an integer, so that \<^verbatim>\<open>int()\<close>
  returns. \<open>now_timestamp\<close> is what the clock shows when the loop reaches the element.
\<close>

record element =
  now_timestamp :: real
  title_text :: "nat \<Rightarrow> string lookup"
  data_timestamp :: "nat \<Rightarrow> int lookup"
  description_text :: "nat \<Rightarrow> string lookup"
  screenshot_as_png :: "nat \<Rightarrow> bytes lookup"

text \<open>\<^verbatim>\<open>hashlib\<close>'s \<^verbatim>\<open>hexdigest()\<close>: two lower-case hexadecimal digits for every byte.\<close>

definition hex_digit :: "nat \<Rightarrow> char" where
  "hex_digit n = ''0123456789abcdef'' ! (n mod 16)"

definition hex_byte :: "8 word \<Rightarrow> string" where
  "hex_byte b = [hex_digit (unat b div 16), hex_digit (unat b mod 16)]"

definition hexdigest :: "bytes \<Rightarrow> string" where
  "hexdigest d = concat (map hex_byte d)"

subsection \<open>The class \<^verbatim>\<open>News\<close>\<close>

definition OUTPUT_DIR :: string where
  "OUTPUT_DIR = ''output''"

definition ATTEMPTS :: nat where
  "ATTEMPTS = 5"

text \<open>
  \<^verbatim>\<open>__get_title\<close> and \<^verbatim>\<open>__get_description\<close> are the same loop on two fields. \<open>attempts\<close>
  counts down as in the source, \<open>k\<close> counts the lookups made, and \<open>field\<close> is the
  attribute: \<open>None\<close> until a statement assigns it.
\<close>

fun get_text :: "nat \<Rightarrow> (nat \<Rightarrow> string lookup) \<Rightarrow> nat \<Rightarrow> string option \<Rightarrow> string option" where
  "get_text 0 text k field = field"
| "get_text (Suc attempts) text k field =
     (case text k of
        Found t \<Rightarrow> Some t
      | NoSuchElementException \<Rightarrow> get_text attempts text (Suc k) (Some [])
      | StaleElementReferenceException \<Rightarrow> get_text attempts text (Suc k) (Some []))"

definition get_title :: "element \<Rightarrow> string option" where
  "get_title e = get_text ATTEMPTS (title_text e) 0 None"

definition get_description :: "element \<Rightarrow> string option" where
  "get_description e = get_text ATTEMPTS (description_text e) 0 None"

text \<open>\<^verbatim>\<open>__get_date\<close>: the timestamp counts milliseconds.\<close>

fun get_date_loop ::
  "library \<Rightarrow> nat \<Rightarrow> (nat \<Rightarrow> int lookup) \<Rightarrow> nat \<Rightarrow> string option \<Rightarrow> string option" where
  "get_date_loop lib 0 stamp k field = field"
| "get_date_loop lib (Suc attempts) stamp k field =
     (case stamp k of
        Found timestamp \<Rightarrow> Some (fromtimestamp_strftime lib (timestamp div 1000))
      | NoSuchElementException \<Rightarrow> get_date_loop lib attempts stamp (Suc k) (Some [])
      | StaleElementReferenceException \<Rightarrow> get_date_loop lib attempts stamp (Suc k) (Some []))"

definition get_date :: "library \<Rightarrow> element \<Rightarrow> string option" where
  "get_date lib e = get_date_loop lib ATTEMPTS (data_timestamp e) 0 None"

text \<open>
  \<^verbatim>\<open>__get_picture\<close>. The state of the loop: the attribute, the attempts that are left,
  the lookups made so far, and the files of the output directory, by path.
\<close>

record picture_state =
  picture_field :: "string option"
  attempts_left :: nat
  lookups :: nat
  files :: "string \<rightharpoonup> bytes"

definition picture_name :: "library \<Rightarrow> bytes \<Rightarrow> string" where
  "picture_name lib pic_bytes = hexdigest (sha1 lib pic_bytes) @ ''.png''"

text \<open>\<^verbatim>\<open>os.path.join(OUTPUT_DIR, picture)\<close>, the name being relative\<close>

definition picture_path :: "string \<Rightarrow> string" where
  "picture_path picture = OUTPUT_DIR @ ''/'' @ picture"

fun get_picture_loop :: "library \<Rightarrow> (nat \<Rightarrow> bytes lookup) \<Rightarrow> nat \<Rightarrow> picture_state \<Rightarrow> picture_state" where
  "get_picture_loop lib shot 0 st = st\<lparr>attempts_left := 0\<rparr>"
| "get_picture_loop lib shot (Suc attempts) st =
     (case shot (lookups st) of
        Found pic_bytes \<Rightarrow>
          st\<lparr>picture_field := Some (picture_name lib pic_bytes),
             attempts_left := Suc attempts,
             lookups := Suc (lookups st),
             files := (files st)(picture_path (picture_name lib pic_bytes) \<mapsto> pic_bytes)\<rparr>
      | NoSuchElementException \<Rightarrow>
          st\<lparr>picture_field := Some [],
             attempts_left := Suc attempts,
             lookups := Suc (lookups st)\<rparr>
      | StaleElementReferenceException \<Rightarrow>
          get_picture_loop lib shot attempts
            (st\<lparr>picture_field := Some [], lookups := Suc (lookups st)\<rparr>))"

definition get_picture :: "library \<Rightarrow> element \<Rightarrow> (string \<rightharpoonup> bytes) \<Rightarrow> picture_state" where
  "get_picture lib e fs =
     get_picture_loop lib (screenshot_as_png e) ATTEMPTS
       \<lparr>picture_field = None, attempts_left = ATTEMPTS, lookups = 0, files = fs\<rparr>"

text \<open>\<^verbatim>\<open>__get_count\<close>\<close>

definition get_count :: "string \<Rightarrow> string \<Rightarrow> string \<Rightarrow> int" where
  "get_count title description search_phrase =
     str_count title search_phrase + str_count description search_phrase"

text \<open>
  \<^verbatim>\<open>__get_money\<close>. The four patterns of the source, in its order, joined by \<^verbatim>\<open>|\<close>:
  \<^verbatim>\<open>\$(\d|[1-9]\d*)\.\d($|\D)\<close>,
  \<^verbatim>\<open>\$(\d|[1-9]\d{0,2}(,\d{3})*)\.\d\d($|\D)\<close>,
  \<^verbatim>\<open>(^|\D)(\d|[1-9]\d*) dollars\<close> and
  \<^verbatim>\<open>(^|\D)(\d|[1-9]\d*) USD\<close>.
\<close>

definition money_pattern :: regex where
  "money_pattern = join_alt
     [cat [Chr CHR ''$'',
           Alt Digit (Cat (Range CHR ''1'' CHR ''9'') (Star Digit)),
           Chr CHR ''.'', Digit, Alt Eol NonDigit],
      cat [Chr CHR ''$'',
           Alt Digit (cat [Range CHR ''1'' CHR ''9'', Repeat Digit 0 2,
                           Star (Cat (Chr CHR '','') (Repeat Digit 3 3))]),
           Chr CHR ''.'', Digit, Digit, Alt Eol NonDigit],
      cat [Alt Bol NonDigit,
           Alt Digit (Cat (Range CHR ''1'' CHR ''9'') (Star Digit)),
           lit '' dollars''],
      cat [Alt Bol NonDigit,
           Alt Digit (Cat (Range CHR ''1'' CHR ''9'') (Star Digit)),
           lit '' USD'']]"

text \<open>\<^verbatim>\<open>a or b\<close> on two results of \<^verbatim>\<open>re.search\<close>: a match object is true, \<^verbatim>\<open>None\<close> is false.\<close>

definition py_or :: "'a option \<Rightarrow> 'a option \<Rightarrow> 'a option" where
  "py_or a b = (case a of Some m \<Rightarrow> Some m | None \<Rightarrow> b)"

definition get_money :: "string \<Rightarrow> string \<Rightarrow> bool" where
  "get_money title description =
     (py_or (re_search money_pattern title) (re_search money_pattern description) \<noteq> None)"

text \<open>The attributes of a \<^verbatim>\<open>News\<close> object once the constructor has returned.\<close>

record news =
  title :: string
  date :: string
  description :: string
  picture :: string
  count :: int
  money :: bool

text \<open>
  \<^verbatim>\<open>News.__init__\<close>: the four fields are read in the order of the source, then the two
  derived ones. Reading a field that no statement assigned raises \<^verbatim>\<open>AttributeError\<close>.
  The result carries the files, which \<^verbatim>\<open>__get_picture\<close> may have changed.
\<close>

definition News_init ::
  "library \<Rightarrow> element \<Rightarrow> string \<Rightarrow> (string \<rightharpoonup> bytes) \<Rightarrow> error + news \<times> (string \<rightharpoonup> bytes)" where
  "News_init lib e search_phrase fs =
     (let t = get_title e;
          d = get_date lib e;
          ds = get_description e;
          p = get_picture lib e fs
      in case (t, d, ds, picture_field p) of
           (Some t', Some d', Some ds', Some p') \<Rightarrow>
             Inr (\<lparr>title = t', date = d', description = ds', picture = p',
                   count = get_count t' ds' search_phrase,
                   money = get_money t' ds'\<rparr>, files p)
         | _ \<Rightarrow> Inl AttributeError)"

text \<open>
  A cell of the worksheet, and the row that \<^verbatim>\<open>save_elements\<close> appends: the columns
  title, date, description, picture, count and money, the last one formatted as text.
\<close>

datatype cell = Str string | Num int

definition save_elements :: "news \<Rightarrow> cell list list \<Rightarrow> cell list list" where
  "save_elements n worksheet =
     worksheet @ [[Str (title n), Str (date n), Str (description n), Str (picture n),
                   Num (count n), Str (if money n then ''True'' else ''False'')]]"

subsection \<open>The class \<^verbatim>\<open>APNewsCollector\<close>\<close>

definition FAULTS_TOLERANCE :: int where
  "FAULTS_TOLERANCE = 5"

text \<open>The attributes that the constructor sets and the methods below read.\<close>

record collector =
  search_phrase :: string
  categories :: string
  months :: int
  now :: string
  timeout :: real
  sort_by :: string

text \<open>
  \<^verbatim>\<open>APNewsCollector.__init__\<close>. The clock is read once: \<open>now_text\<close> is
  \<^verbatim>\<open>now.strftime(DATE_FORMAT)\<close> and \<open>now_seconds\<close> is \<^verbatim>\<open>now.timestamp()\<close>.
\<close>

definition APNewsCollector_init ::
  "string \<Rightarrow> string \<Rightarrow> int \<Rightarrow> string \<Rightarrow> real \<Rightarrow> string \<Rightarrow> real \<Rightarrow> collector" where
  "APNewsCollector_init phrase cats months_arg sort_arg timeout_arg now_text now_seconds =
     \<lparr>search_phrase = phrase,
      categories = cats,
      months = (if months_arg = 0 then months_arg else months_arg - 1),
      now = now_text,
      timeout = now_seconds + timeout_arg,
      sort_by = sort_arg\<rparr>"

text \<open>
  What \<^verbatim>\<open>__filter_news\<close> does to the page, in order. Each click stands for one call of
  \<^verbatim>\<open>__secure_click_element\<close>, which returns nothing to its caller.
\<close>

datatype action =
    Select_sort string
  | Click_filter_heading
  | Read_label nat
  | Click_label nat

text \<open>
  The \<^verbatim>\<open>for\<close> loop over the labels of the filter panel: the actions, and the label that
  was found in the working set, if any.
\<close>

fun scan_labels :: "string fset \<Rightarrow> nat \<Rightarrow> string list \<Rightarrow> action list \<times> string option" where
  "scan_labels cats i [] = ([], None)"
| "scan_labels cats i (label # labels) =
     (let element_text = lower label
      in if element_text |\<in>| cats
         then ([Read_label i, Click_label i], Some element_text)
         else (case scan_labels cats (Suc i) labels of
                 (acts, hit) \<Rightarrow> (Read_label i # acts, hit)))"

text \<open>
  The \<^verbatim>\<open>while\<close> loop. \<open>panel n\<close> is the list of label texts that the page shows at the
  \<open>n\<close>-th scan.
\<close>

function filter_loop :: "(nat \<Rightarrow> string list) \<Rightarrow> nat \<Rightarrow> bool \<Rightarrow> string fset \<Rightarrow> action list" where
  "filter_loop panel n found cats =
     (if found \<and> fcard cats \<noteq> 0
      then (case scan_labels cats 0 (panel n) of
              (acts, None) \<Rightarrow>
                Click_filter_heading # acts @ filter_loop panel (Suc n) False cats
            | (acts, Some element_text) \<Rightarrow>
                Click_filter_heading # acts @
                  filter_loop panel (Suc n) True (cats |-| {|element_text|}))
      else [])"
  by pat_completeness auto

termination
proof -
  have hit: "scan_labels cats i labels = (acts, Some t) \<Longrightarrow> t |\<in>| cats"
    for cats i labels acts t
    by (induction labels arbitrary: i acts) (auto simp: Let_def split: if_splits prod.splits)
  have less: "fcard (cats |-| {|t|}) < fcard cats"
    if "(acts, Some t) = scan_labels cats i labels" for cats i labels acts t
  proof -
    from that have "t |\<in>| cats" using hit [of cats i labels acts t] by simp
    then show ?thesis using fcard_Suc_fminus1 [of t cats] by linarith
  qed
  show ?thesis
    by (relation "measure (\<lambda>(panel, n, found, cats). if found then Suc (fcard cats) else 0)")
      (auto dest: less)
qed

declare filter_loop.simps [simp del]

text \<open>
  The set comprehension over \<^verbatim>\<open>self.__categories.split(",")\<close>. The separator is a
  literal, so the split does not raise; the model keeps the case all the same.
\<close>

definition category_set :: "string \<Rightarrow> error + string fset" where
  "category_set cats =
     (case str_split cats '','' of
        Inl err \<Rightarrow> Inl err
      | Inr parts \<Rightarrow> Inr (fset_of_list (map lower parts)))"

text \<open>\<^verbatim>\<open>__filter_news\<close>\<close>

definition filter_news :: "collector \<Rightarrow> (nat \<Rightarrow> string list) \<Rightarrow> error + action list" where
  "filter_news c panel =
     (case category_set (categories c) of
        Inl err \<Rightarrow> Inl err
      | Inr cats \<Rightarrow>
          Inr ((if sort_by c \<noteq> [] then [Select_sort (sort_by c)] else [])
               @ filter_loop panel 0 True cats))"

text \<open>
  \<^verbatim>\<open>__get_news\<close>. What the browser shows during one round of the \<^verbatim>\<open>while\<close> loop: the
  result elements and the text of the page counter.
\<close>

record page =
  elements :: "element list"
  page_counts :: string

text \<open>
  Where the method stands: at the test of the \<^verbatim>\<open>while\<close> loop, inside the \<^verbatim>\<open>for\<close> loop
  with the result elements that are still to come, after a \<^verbatim>\<open>return\<close>, or stopped by
  an exception.
\<close>

datatype control = While_test | For_loop "element list" | Returned | Raised error

text \<open>
  The variables of the method and what it has changed so far: the rows of the worksheet,
  the files of the output directory, the calls of the next-page click, and the number of
  \<^verbatim>\<open>News\<close> objects constructed. The round of the \<^verbatim>\<open>while\<close> loop equals the number of
  next-page clicks, since every round that does not return ends with one.
\<close>

record state =
  remaining_faults :: int
  worksheet :: "cell list list"
  output_files :: "string \<rightharpoonup> bytes"
  next_page_clicks :: nat
  extracted :: nat
  control :: control

definition get_news_start :: "cell list list \<Rightarrow> (string \<rightharpoonup> bytes) \<Rightarrow> state" where
  "get_news_start rows fs =
     \<lparr>remaining_faults = FAULTS_TOLERANCE, worksheet = rows, output_files = fs,
      next_page_clicks = 0, extracted = 0, control = While_test\<rparr>"

text \<open>
  The body of the \<^verbatim>\<open>for\<close> loop behind its first test, for the element \<open>e\<close>; \<open>rest\<close> are
  the elements after it.
\<close>

definition for_body :: "library \<Rightarrow> collector \<Rightarrow> element \<Rightarrow> element list \<Rightarrow> state \<Rightarrow> state" where
  "for_body lib c e rest st =
     (case News_init lib e (search_phrase c) (output_files st) of
        Inl err \<Rightarrow> st\<lparr>control := Raised err\<rparr>
      | Inr (n, fs) \<Rightarrow>
          (let st' = st\<lparr>output_files := fs, extracted := Suc (extracted st),
                         control := For_loop rest\<rparr>
           in if date n = []
              then st'\<lparr>remaining_faults := remaining_faults st - 1\<rparr>
              else if time_difference_in_months lib (date n) (now c) > months c
              then st'\<lparr>remaining_faults := remaining_faults st - 1\<rparr>
              else st'\<lparr>worksheet := save_elements n (worksheet st),
                       remaining_faults := FAULTS_TOLERANCE\<rparr>))"

text \<open>The statements behind the \<^verbatim>\<open>for\<close> loop, which read the page counter.\<close>

definition after_for :: "string \<Rightarrow> state \<Rightarrow> state" where
  "after_for counts st =
     (case str_split counts '' of '' of
        Inl err \<Rightarrow> st\<lparr>control := Raised err\<rparr>
      | Inr parts \<Rightarrow>
          (case unpack2 parts of
             Inl err \<Rightarrow> st\<lparr>control := Raised err\<rparr>
           | Inr (current, total') \<Rightarrow>
               if str_less current total'
               then st\<lparr>next_page_clicks := Suc (next_page_clicks st), control := While_test\<rparr>
               else st\<lparr>control := Returned\<rparr>))"

text \<open>
  One step of the method. \<open>browser n\<close> is the page that the browser shows in round \<open>n\<close>.
\<close>

fun step :: "library \<Rightarrow> collector \<Rightarrow> (nat \<Rightarrow> page) \<Rightarrow> state \<Rightarrow> state" where
  "step lib c browser st =
     (case control st of
        While_test \<Rightarrow>
          if remaining_faults st > 0
          then st\<lparr>control := For_loop (elements (browser (next_page_clicks st)))\<rparr>
          else st\<lparr>control := Returned\<rparr>
      | For_loop [] \<Rightarrow> after_for (page_counts (browser (next_page_clicks st))) st
      | For_loop (e # rest) \<Rightarrow>
          if now_timestamp e \<ge> timeout c \<or> remaining_faults st = 0
          then st\<lparr>control := Returned\<rparr>
          else for_body lib c e rest st
      | Returned \<Rightarrow> st
      | Raised err \<Rightarrow> st)"

text \<open>The state after \<open>k\<close> steps.\<close>

fun run :: "library \<Rightarrow> collector \<Rightarrow> (nat \<Rightarrow> page) \<Rightarrow> nat \<Rightarrow> state \<Rightarrow> state" where
  "run lib c browser 0 st = st"
| "run lib c browser (Suc k) st = step lib c browser (run lib c browser k st)"

text \<open>The states that \<^verbatim>\<open>__get_news\<close> goes through, from its first statement on.\<close>

definition get_news :: "library \<Rightarrow> collector \<Rightarrow> (nat \<Rightarrow> page) \<Rightarrow> cell list list \<Rightarrow> (string \<rightharpoonup> bytes) \<Rightarrow> nat \<Rightarrow> state" where
  "get_news lib c browser rows fs k = run lib c browser k (get_news_start rows fs)"

subsection \<open>Counting occurrences, as the specification words it\<close>

text \<open>
  The specification speaks of the number of non-overlapping occurrences of the phrase.
  \<open>sub\<close> occurs in \<open>s\<close> at \<open>i\<close> when the characters of \<open>s\<close> from \<open>i\<close> on start with \<open>sub\<close>;
  a set of positions is non-overlapping when two occurrences that start there share no
  character; and \<open>n\<close> is the number of non-overlapping occurrences when some
  non-overlapping set of occurrences has \<open>n\<close> members and none has more.
\<close>

definition occurs_at :: "'a list \<Rightarrow> 'a list \<Rightarrow> nat \<Rightarrow> bool" where
  "occurs_at s sub i = (i + length sub \<le> length s \<and> take (length sub) (drop i s) = sub)"

definition non_overlapping :: "'a list \<Rightarrow> nat set \<Rightarrow> bool" where
  "non_overlapping sub P = (\<forall>i\<in>P. \<forall>j\<in>P. i < j \<longrightarrow> i + length sub \<le> j)"

definition occurrence_sets :: "'a list \<Rightarrow> 'a list \<Rightarrow> nat set set" where
  "occurrence_sets s sub = {P. (\<forall>i\<in>P. occurs_at s sub i) \<and> non_overlapping sub P}"

definition most_occurrences :: "'a list \<Rightarrow> 'a list \<Rightarrow> nat \<Rightarrow> bool" where
  "most_occurrences s sub n =
     ((\<exists>P\<in>occurrence_sets s sub. card P = n) \<and> (\<forall>P\<in>occurrence_sets s sub. card P \<le> n))"

text \<open>
  \<^verbatim>\<open>re.search(pattern, s) is not None\<close> for the currency pattern, on one string.
\<close>

definition money_match :: "string \<Rightarrow> bool" where
  "money_match s = (re_search money_pattern s \<noteq> None)"

subsection \<open>Sample inputs\<close>

text \<open>
  Stand-ins for the libraries, to run the model on: a hash that keeps the first two bytes
  of its input, a clock format with two values, and a calendar that puts the first of
  them 652 months back. The sample element answers the first lookup of its title with a
  stale reference and every later one with the text.
\<close>

definition example_library :: library where
  "example_library =
     \<lparr>sha1 = (\<lambda>b. take 2 b),
      fromtimestamp_strftime =
        (\<lambda>t. if t < 1700000000 then ''1970-01-01T00:00:00'' else ''2024-05-01T12:00:00''),
      time_difference_in_months =
        (\<lambda>a b. if a = ''1970-01-01T00:00:00'' then 652 else 0)\<rparr>"

definition example_element :: "(nat \<Rightarrow> int lookup) \<Rightarrow> (nat \<Rightarrow> bytes lookup) \<Rightarrow> element" where
  "example_element stamp shot =
     \<lparr>now_timestamp = 10,
      title_text = (\<lambda>k. if k = 0 then StaleElementReferenceException
                         else Found ''Prices rise to $11.1''),
      data_timestamp = stamp,
      description_text = (\<lambda>k. Found ''Rise and rise again''),
      screenshot_as_png = shot\<rparr>"

text \<open>
  A collector for the phrase \<^verbatim>\<open>rise\<close> and one month, started at second 0 with the
  default timeout; a browser whose every page holds five elements without a timestamp;
  and a state in the middle of a page, three faults left.
\<close>

definition example_collector :: collector where
  "example_collector =
     APNewsCollector_init ''rise'' [] 1 ''Newest'' 170 ''2024-05-20T10:00:00'' 0"

definition example_browser :: "nat \<Rightarrow> page" where
  "example_browser n =
     \<lparr>elements = replicate 5 (example_element (\<lambda>k. NoSuchElementException)
                                (\<lambda>k. NoSuchElementException)),
      page_counts = ''1 of 2''\<rparr>"

definition example_state :: "element list \<Rightarrow> state" where
  "example_state es = (get_news_start [] Map.empty)\<lparr>remaining_faults := 3, control := For_loop es\<rparr>"

section \<open>Properties\<close>

subsection \<open>The count of the search phrase\<close>

lemma startswith_take: "startswith s sub = (length sub \<le> length s \<and> take (length sub) s = sub)"
  by (induction s sub rule: startswith.induct) auto

lemma occurs_at_0: "occurs_at s sub 0 = startswith s sub"
  by (auto simp: occurs_at_def startswith_take)

lemma occurs_at_Suc: "occurs_at (c # cs) sub (Suc i) = occurs_at cs sub i"
  by (simp add: occurs_at_def)

lemma occurs_at_drop: "k \<le> length s \<Longrightarrow> occurs_at s sub (k + i) = occurs_at (drop k s) sub i"
  by (auto simp: occurs_at_def add.commute)

lemma occurs_at_bound: "occurs_at s sub i \<Longrightarrow> i \<le> length s"
  by (simp add: occurs_at_def)

lemma occurrence_sets_finite: "P \<in> occurrence_sets s sub \<Longrightarrow> finite P"
proof -
  assume "P \<in> occurrence_sets s sub"
  then have "P \<subseteq> {..length s}"
    by (auto simp: occurrence_sets_def dest: occurs_at_bound)
  then show "finite P" by (rule finite_subset) simp
qed


lemma count_scan_upper:
  "sub \<noteq> [] \<Longrightarrow> P \<in> occurrence_sets s sub \<Longrightarrow> card P \<le> count_scan s sub"
proof (induction s sub arbitrary: P rule: count_scan.induct)
  case (1 sub)
  then have "P = {}"
    by (auto simp: occurrence_sets_def occurs_at_def)
  then show ?case by simp
next
  case (2 c cs sub)
  let ?s = "c # cs" and ?n = "length sub"
  have fin: "finite P" using "2.prems"(2) by (rule occurrence_sets_finite)
  have occ: "\<And>i. i \<in> P \<Longrightarrow> occurs_at ?s sub i"
    and sep: "\<And>i j. i \<in> P \<Longrightarrow> j \<in> P \<Longrightarrow> i < j \<Longrightarrow> i + ?n \<le> j"
    using "2.prems"(2) by (auto simp: occurrence_sets_def non_overlapping_def)
  show ?case
  proof (cases "startswith ?s sub")
    case True
    then have len: "?n \<le> length ?s" by (simp add: startswith_take)
    define A where "A = {i\<in>P. i < ?n}"
    define B where "B = {i\<in>P. ?n \<le> i}"
    define Q where "Q = (\<lambda>i. i - ?n) ` B"
    have P_eq: "P = A \<union> B" and disj: "A \<inter> B = {}"
      by (auto simp: A_def B_def)
    have "card A \<le> 1"
    proof (rule card_le_Suc0_iff_eq [THEN iffD2, unfolded One_nat_def [symmetric]])
      show "finite A" using fin by (simp add: A_def)
      show "\<forall>a\<in>A. \<forall>b\<in>A. a = b"
      proof (intro ballI)
        fix a b assume "a \<in> A" "b \<in> A"
        then have ab: "a \<in> P" "b \<in> P" "a < ?n" "b < ?n" by (auto simp: A_def)
        show "a = b"
        proof (rule ccontr)
          assume "a \<noteq> b"
          then consider "a < b" | "b < a" by linarith
          then show False using sep [of a b] sep [of b a] ab by cases auto
        qed
      qed
    qed
    moreover have "card B = card Q"
      unfolding Q_def by (rule card_image [symmetric]) (auto simp: inj_on_def B_def)
    moreover have "Q \<in> occurrence_sets (drop ?n ?s) sub"
    proof -
      have "occurs_at (drop ?n ?s) sub (i - ?n)" if "i \<in> B" for i
      proof -
        from that have "i \<in> P" "?n \<le> i" by (auto simp: B_def)
        then show ?thesis using occ [of i] occurs_at_drop [OF len, of sub "i - ?n"] by simp
      qed
      moreover have "i - ?n + ?n \<le> j - ?n" if "i \<in> B" "j \<in> B" "i - ?n < j - ?n" for i j
      proof -
        from that have "i \<in> P" "j \<in> P" "?n \<le> i" "i < j" by (auto simp: B_def)
        then show ?thesis using sep [of i j] by simp
      qed
      ultimately show ?thesis
        by (auto simp: occurrence_sets_def non_overlapping_def Q_def)
    qed
    then have "card Q \<le> count_scan (drop ?n ?s) sub"
      using "2.IH"(1) "2.prems"(1) True by simp
    moreover have "card P = card A + card B"
      unfolding P_eq using fin disj by (intro card_Un_disjoint) (auto simp: A_def B_def)
    ultimately show ?thesis using True "2.prems"(1) by simp
  next
    case False
    then have no0: "0 \<notin> P" using occ [of 0] by (auto simp: occurs_at_0)
    define Q where "Q = (\<lambda>i. i - 1) ` P"
    have "card P = card Q"
      unfolding Q_def using no0
      by (intro card_image [symmetric]) (auto simp: inj_on_def, metis Suc_pred not_gr_zero)
    moreover have "Q \<in> occurrence_sets cs sub"
    proof -
      have "occurs_at cs sub (i - 1)" if "i \<in> P" for i
      proof -
        from that no0 obtain k where "i = Suc k" by (cases i) auto
        then show ?thesis using occ [OF that] by (simp add: occurs_at_Suc)
      qed
      moreover have "i - 1 + ?n \<le> j - 1" if "i \<in> P" "j \<in> P" "i - 1 < j - 1" for i j
      proof -
        from that no0 have "0 < i" "0 < j" by (auto intro: Nat.gr0I)
        moreover from this that have "i < j" by linarith
        ultimately show ?thesis using that sep [of i j] by simp
      qed
      ultimately show ?thesis
        by (auto simp: occurrence_sets_def non_overlapping_def Q_def)
    qed
    then have "card Q \<le> count_scan cs sub"
      using "2.IH"(2) "2.prems"(1) False by simp
    ultimately show ?thesis using False by simp
  qed
qed

lemma count_scan_attained:
  "sub \<noteq> [] \<Longrightarrow> \<exists>P\<in>occurrence_sets s sub. card P = count_scan s sub"
proof (induction s sub rule: count_scan.induct)
  case (1 sub)
  have "{} \<in> occurrence_sets [] sub" by (simp add: occurrence_sets_def non_overlapping_def)
  then show ?case by force
next
  case (2 c cs sub)
  let ?s = "c # cs" and ?n = "length sub"
  show ?case
  proof (cases "startswith ?s sub")
    case True
    then have len: "?n \<le> length ?s" by (simp add: startswith_take)
    from "2.IH"(1) "2.prems" True obtain Q
      where Q: "Q \<in> occurrence_sets (drop ?n ?s) sub" "card Q = count_scan (drop ?n ?s) sub"
      by auto
    define P where "P = insert 0 ((\<lambda>i. ?n + i) ` Q)"
    have finQ: "finite Q" using Q(1) by (rule occurrence_sets_finite)
    have pos: "0 < ?n" using "2.prems" by simp
    have "0 \<notin> (\<lambda>i. ?n + i) ` Q" using pos by auto
    then have "card P = Suc (card ((\<lambda>i. ?n + i) ` Q))"
      unfolding P_def using finQ by simp
    also have "card ((\<lambda>i. ?n + i) ` Q) = card Q"
      by (rule card_image) (simp add: inj_on_def)
    finally have "card P = count_scan ?s sub" using Q(2) True "2.prems" by simp
    moreover have "P \<in> occurrence_sets ?s sub"
    proof -
      have "occurs_at ?s sub 0" using True by (simp add: occurs_at_0)
      moreover have "occurs_at ?s sub (?n + i)" if "i \<in> Q" for i
        using that Q(1) occurs_at_drop [OF len, of sub i] by (auto simp: occurrence_sets_def)
      moreover have "non_overlapping sub P"
      proof -
        have "i + ?n \<le> j" if "i \<in> Q" "j \<in> Q" "i < j" for i j
          using that Q(1) by (simp add: occurrence_sets_def non_overlapping_def)
        then show ?thesis
          by (auto simp: non_overlapping_def P_def add.commute)
      qed
      ultimately show ?thesis by (auto simp: occurrence_sets_def P_def)
    qed
    ultimately show ?thesis by blast
  next
    case False
    from "2.IH"(2) "2.prems" False obtain Q
      where Q: "Q \<in> occurrence_sets cs sub" "card Q = count_scan cs sub"
      by auto
    have "card (Suc ` Q) = count_scan ?s sub"
      using Q(2) False by (simp add: card_image)
    moreover have "Suc ` Q \<in> occurrence_sets ?s sub"
      using Q(1) by (auto simp: occurrence_sets_def non_overlapping_def occurs_at_Suc)
    ultimately show ?thesis by blast
  qed
qed

lemma empty_sub_sets: "P \<in> occurrence_sets s [] \<longleftrightarrow> P \<subseteq> {..length s}"
  by (auto simp: occurrence_sets_def non_overlapping_def occurs_at_def)

lemma str_count_most: "most_occurrences s sub (nat (str_count s sub))"
proof (cases "sub = []")
  case True
  have "{..length s} \<in> occurrence_sets s []" by (simp add: empty_sub_sets)
  moreover have "card P \<le> Suc (length s)" if "P \<in> occurrence_sets s []" for P
  proof -
    from that have "P \<subseteq> {..length s}" by (simp add: empty_sub_sets)
    then have "card P \<le> card {..length s}" by (intro card_mono) auto
    then show ?thesis by simp
  qed
  ultimately show ?thesis
    using True unfolding most_occurrences_def str_count_def
    by (auto simp: nat_add_distrib intro!: bexI [where x = "{..length s}"])
next
  case False
  then show ?thesis
    unfolding most_occurrences_def str_count_def
    using count_scan_attained [OF False, of s] count_scan_upper [OF False, of _ s]
    by auto
qed


lemma str_count_nonneg: "0 \<le> str_count s sub"
  by (simp add: str_count_def)

text \<open>
  Claim C4. The count field is the sum of two numbers, one for the title and one for the
  description: each is the largest number of pairwise non-overlapping places where the
  search phrase occurs in that string, character for character (so case matters, and a
  place inside a word counts). The sum is never negative. The statement covers every
  phrase, the empty one included, which occurs at every position.
\<close>

theorem get_count_occurrences:
  "most_occurrences title' search (nat (str_count title' search)) \<and>
   most_occurrences description' search (nat (str_count description' search)) \<and>
   get_count title' description' search =
     int (nat (str_count title' search)) + int (nat (str_count description' search)) \<and>
   0 \<le> get_count title' description' search"
  by (simp add: get_count_def str_count_most str_count_nonneg)

text \<open>
  The claim at a title where the phrase occurs three times with an overlap, of which two
  count, and a description where it occurs once.
\<close>

theorem get_count_occurrences_witness:
  "{0, 2} \<in> occurrence_sets ''aaaa'' ''aa'' \<and>
   most_occurrences ''aaaa'' ''aa'' 2 \<and>
   most_occurrences ''an aardvark'' ''aa'' 1 \<and>
   get_count ''aaaa'' ''an aardvark'' ''aa'' = 3"
proof -
  have "nat (str_count ''aaaa'' ''aa'') = 2" "nat (str_count ''an aardvark'' ''aa'') = 1"
    by (simp_all add: str_count_def)
  moreover have "{0, 2} \<in> occurrence_sets ''aaaa'' ''aa''"
    by (simp add: occurrence_sets_def occurs_at_def non_overlapping_def)
  ultimately show ?thesis
    using get_count_occurrences [of "''aaaa''" "''aa''" "''an aardvark''"] by simp
qed

subsection \<open>The money flag\<close>

lemmas money_eval = money_match_def re_search_def money_pattern_def digit_def

lemma money_cents_short: "money_match ''$11.1''"
  by (simp add: money_eval)

lemma money_cents_grouped: "money_match ''$111,111.11''"
  by (simp add: money_eval eval_nat_numeral)

lemma money_dollars: "money_match ''11 dollars''"
  by (simp add: money_eval)

lemma money_usd: "money_match ''11 USD''"
  by (simp add: money_eval)

lemma money_none: "\<not> money_match ''no currency here''"
  by (simp add: money_eval)

text \<open>
  Claim C3. The money flag of a title and a description is true exactly when the
  currency pattern matches somewhere in the title or somewhere in the description. The
  pattern matches each of the strings \<^verbatim>\<open>$11.1\<close>, \<^verbatim>\<open>$111,111.11\<close>, \<^verbatim>\<open>11 dollars\<close> and
  \<^verbatim>\<open>11 USD\<close>, so an item with one of them as title or description has the flag set, and
  it does not match \<^verbatim>\<open>no currency here\<close>.
\<close>

theorem get_money_detector:
  "get_money title' description' = (money_match title' \<or> money_match description') \<and>
   money_match ''$11.1'' \<and> money_match ''$111,111.11'' \<and>
   money_match ''11 dollars'' \<and> money_match ''11 USD'' \<and>
   \<not> money_match ''no currency here''"
  by (simp add: money_cents_short money_cents_grouped money_dollars money_usd money_none)
     (simp add: get_money_def py_or_def money_match_def split: option.splits)

text \<open>
  The claim at the sample article, whose title names a price, and at a pair of strings
  without any.
\<close>

theorem get_money_detector_witness:
  "get_money ''Prices rise to $11.1'' ''Rise and rise again'' \<and>
   get_money ''Rise and rise again'' ''Prices rise to $11.1'' \<and>
   \<not> get_money ''no currency here'' ''Rise and rise again''"
proof -
  have "money_match ''Prices rise to $11.1''" "\<not> money_match ''Rise and rise again''"
    by (simp_all add: money_eval)
  then show ?thesis
    using get_money_detector [of "''Prices rise to $11.1''" "''Rise and rise again''"]
      get_money_detector [of "''Rise and rise again''" "''Prices rise to $11.1''"]
      get_money_detector [of "''no currency here''" "''Rise and rise again''"]
    by blast
qed

subsection \<open>Reading the picture\<close>

lemma get_picture_loop_stale:
  "\<forall>k<n. shot (l + k) = StaleElementReferenceException \<Longrightarrow>
   get_picture_loop lib shot (n + a)
     \<lparr>picture_field = p, attempts_left = al, lookups = l, files = fs\<rparr> =
   get_picture_loop lib shot a
     \<lparr>picture_field = (if n = 0 then p else Some []), attempts_left = al,
      lookups = l + n, files = fs\<rparr>"
proof (induction n arbitrary: p l)
  case 0
  show ?case by simp
next
  case (Suc n)
  have first: "shot l = StaleElementReferenceException"
    using Suc.prems [rule_format, of 0] by simp
  have rest: "\<forall>k<n. shot (Suc l + k) = StaleElementReferenceException"
  proof (intro allI impI)
    fix k assume "k < n"
    then show "shot (Suc l + k) = StaleElementReferenceException"
      using Suc.prems [rule_format, of "Suc k"] by simp
  qed
  have "get_picture_loop lib shot (Suc n + a)
          \<lparr>picture_field = p, attempts_left = al, lookups = l, files = fs\<rparr> =
        get_picture_loop lib shot (n + a)
          \<lparr>picture_field = Some [], attempts_left = al, lookups = Suc l, files = fs\<rparr>"
    using first by simp
  also have "\<dots> = get_picture_loop lib shot a
          \<lparr>picture_field = (if n = 0 then Some [] else Some []), attempts_left = al,
           lookups = Suc l + n, files = fs\<rparr>"
    by (rule Suc.IH [OF rest])
  finally show ?case by simp
qed

text \<open>
  Claim C7. When the first \<open>j\<close> lookups of the image meet a stale reference and the next
  one finds no image element, with \<open>j\<close> below the five attempts, the picture is the empty
  string, the attempts that were left stay unused (five less \<open>j\<close>) and no further lookup
  is made. When all five lookups meet a stale reference, each one uses an attempt, the
  loop ends after the fifth and the picture is the empty string; the result is a value,
  not an exception. Neither case writes a file.
\<close>

theorem get_picture_retries:
  "(j < ATTEMPTS \<and> (\<forall>k<j. screenshot_as_png e k = StaleElementReferenceException) \<and>
      screenshot_as_png e j = NoSuchElementException \<longrightarrow>
      get_picture lib e fs =
        \<lparr>picture_field = Some [], attempts_left = ATTEMPTS - j, lookups = Suc j, files = fs\<rparr>) \<and>
   ((\<forall>k<ATTEMPTS. screenshot_as_png e k = StaleElementReferenceException) \<longrightarrow>
      get_picture lib e fs =
        \<lparr>picture_field = Some [], attempts_left = 0, lookups = ATTEMPTS, files = fs\<rparr>) \<and>
   ATTEMPTS = 5"
proof (intro conjI impI)
  let ?shot = "screenshot_as_png e"
  show "ATTEMPTS = 5" by (simp add: ATTEMPTS_def)
  {
    assume h: "j < ATTEMPTS \<and> (\<forall>k<j. ?shot k = StaleElementReferenceException) \<and>
      ?shot j = NoSuchElementException"
    then obtain a where a: "ATTEMPTS = j + Suc a"
      using less_imp_Suc_add [of j ATTEMPTS] by auto
    from h have stale: "\<forall>k<j. ?shot (0 + k) = StaleElementReferenceException" by simp
    have "get_picture lib e fs = get_picture_loop lib ?shot (Suc a)
        \<lparr>picture_field = (if j = 0 then None else Some []), attempts_left = ATTEMPTS,
         lookups = 0 + j, files = fs\<rparr>"
      unfolding get_picture_def a [symmetric, THEN eq_reflection]
      using get_picture_loop_stale [OF stale, of lib "Suc a" None ATTEMPTS fs]
      by (simp add: a)
    also have "\<dots> = \<lparr>picture_field = Some [], attempts_left = Suc a, lookups = Suc j, files = fs\<rparr>"
      using h by simp
    finally show "get_picture lib e fs =
        \<lparr>picture_field = Some [], attempts_left = ATTEMPTS - j, lookups = Suc j, files = fs\<rparr>"
      by (simp add: a)
  }
  {
    assume h: "\<forall>k<ATTEMPTS. ?shot k = StaleElementReferenceException"
    then have stale: "\<forall>k<ATTEMPTS. ?shot (0 + k) = StaleElementReferenceException" by simp
    have "get_picture lib e fs = get_picture_loop lib ?shot 0
        \<lparr>picture_field = (if ATTEMPTS = 0 then None else Some []), attempts_left = ATTEMPTS,
         lookups = 0 + ATTEMPTS, files = fs\<rparr>"
      using get_picture_loop_stale [OF stale, of lib 0 None ATTEMPTS fs]
      by (simp add: get_picture_def)
    then show "get_picture lib e fs =
        \<lparr>picture_field = Some [], attempts_left = 0, lookups = ATTEMPTS, files = fs\<rparr>"
      by (simp add: ATTEMPTS_def)
  }
qed


text \<open>
  The claim at an element where two stale references come before the missing image, and
  at one where every lookup is stale.
\<close>

theorem get_picture_retries_witness:
  "get_picture example_library
     (example_element (\<lambda>k. Found 0)
        (\<lambda>k. if k < 2 then StaleElementReferenceException else NoSuchElementException))
     Map.empty =
     \<lparr>picture_field = Some [], attempts_left = 3, lookups = 3, files = Map.empty\<rparr> \<and>
   get_picture example_library
     (example_element (\<lambda>k. Found 0) (\<lambda>k. StaleElementReferenceException)) Map.empty =
     \<lparr>picture_field = Some [], attempts_left = 0, lookups = 5, files = Map.empty\<rparr>"
proof -
  let ?e1 = "example_element (\<lambda>k. Found 0)
        (\<lambda>k. if k < 2 then StaleElementReferenceException else NoSuchElementException)"
  let ?e2 = "example_element (\<lambda>k. Found 0) (\<lambda>k. StaleElementReferenceException)"
  have h1: "2 < ATTEMPTS \<and> (\<forall>k<2. screenshot_as_png ?e1 k = StaleElementReferenceException) \<and>
      screenshot_as_png ?e1 2 = NoSuchElementException"
    by (simp add: example_element_def ATTEMPTS_def)
  have h2: "\<forall>k<ATTEMPTS. screenshot_as_png ?e2 k = StaleElementReferenceException"
    by (simp add: example_element_def)
  have "get_picture example_library ?e1 Map.empty =
      \<lparr>picture_field = Some [], attempts_left = ATTEMPTS - 2, lookups = Suc 2, files = Map.empty\<rparr>"
    using get_picture_retries [of 2 ?e1 example_library Map.empty] h1 by blast
  moreover have "get_picture example_library ?e2 Map.empty =
      \<lparr>picture_field = Some [], attempts_left = 0, lookups = ATTEMPTS, files = Map.empty\<rparr>"
    using get_picture_retries [of 0 ?e2 example_library Map.empty] h2 by blast
  ultimately show ?thesis by (simp add: ATTEMPTS_def)
qed

subsection \<open>The name of the picture\<close>

lemma hex_digit_inj: "m < 16 \<Longrightarrow> n < 16 \<Longrightarrow> hex_digit m = hex_digit n \<Longrightarrow> m = n"
proof -
  assume a: "m < 16" "n < 16" "hex_digit m = hex_digit n"
  have d: "distinct ''0123456789abcdef''" by simp
  have l: "length ''0123456789abcdef'' = 16" by simp
  from a have "''0123456789abcdef'' ! m = ''0123456789abcdef'' ! n"
    by (simp add: hex_digit_def)
  then show "m = n" using a(1,2) d l nth_eq_iff_index_eq [OF d, of m n] by simp
qed

lemma hex_byte_inj: "hex_byte a = hex_byte b \<Longrightarrow> a = b"
proof -
  assume eq: "hex_byte a = hex_byte b"
  have "unat a < 2 ^ LENGTH(8)" "unat b < 2 ^ LENGTH(8)"
    by (rule unsigned_less)+
  then have ba: "unat a < 256" and bb: "unat b < 256"
    by simp_all
  then have hi: "unat a div 16 < 16" "unat b div 16 < 16"
    by simp_all
  have lo: "unat a mod 16 < 16" "unat b mod 16 < 16"
    by simp_all
  from eq have "hex_digit (unat a div 16) = hex_digit (unat b div 16)"
    and "hex_digit (unat a mod 16) = hex_digit (unat b mod 16)"
    by (simp_all add: hex_byte_def)
  then have "unat a div 16 = unat b div 16" "unat a mod 16 = unat b mod 16"
    using hi lo by (blast intro: hex_digit_inj)+
  then have "unat a = unat b"
    by (metis div_mult_mod_eq)
  then show "a = b" by (simp add: word_unat_eq_iff)
qed

lemma hexdigest_inj: "hexdigest d1 = hexdigest d2 \<Longrightarrow> d1 = d2"
proof (induction d1 arbitrary: d2)
  case Nil
  then show ?case by (cases d2) (simp_all add: hexdigest_def hex_byte_def)
next
  case (Cons a d1)
  show ?case
  proof (cases d2)
    case Nil
    with Cons.prems show ?thesis by (simp add: hexdigest_def hex_byte_def)
  next
    case (Cons b d2')
    with Cons.prems have "hex_byte a @ hexdigest d1 = hex_byte b @ hexdigest d2'"
      by (simp add: hexdigest_def)
    moreover have "length (hex_byte a) = length (hex_byte b)" by (simp add: hex_byte_def)
    ultimately have "hex_byte a = hex_byte b" "hexdigest d1 = hexdigest d2'" by simp_all
    then show ?thesis using Cons Cons.IH [of d2'] by (simp add: hex_byte_inj)
  qed
qed

lemma get_picture_found:
  "screenshot_as_png e 0 = Found pic_bytes \<Longrightarrow>
   get_picture lib e fs =
     \<lparr>picture_field = Some (picture_name lib pic_bytes), attempts_left = ATTEMPTS,
      lookups = Suc 0,
      files = fs(picture_path (picture_name lib pic_bytes) \<mapsto> pic_bytes)\<rparr>"
  by (simp add: get_picture_def ATTEMPTS_def eval_nat_numeral)

text \<open>
  Claim C8. The name of the picture is the hexadecimal SHA-1 digest of the screenshot
  bytes followed by \<^verbatim>\<open>.png\<close>, so it depends on the bytes alone. Two byte strings get
  the same name exactly when their digests are equal: equal bytes always do, and
  different bytes only when the hash collides. Two articles whose image has the same
  bytes therefore get the same picture field, and the second one writes the same bytes
  to the same path, which leaves the files as they were.
\<close>

theorem picture_name_of_bytes:
  "picture_name lib pic_bytes = hexdigest (sha1 lib pic_bytes) @ ''.png'' \<and>
   (picture_name lib b1 = picture_name lib b2) = (sha1 lib b1 = sha1 lib b2) \<and>
   (screenshot_as_png e1 0 = Found pic_bytes \<and> screenshot_as_png e2 0 = Found pic_bytes \<longrightarrow>
      picture_field (get_picture lib e1 fs) = Some (picture_name lib pic_bytes) \<and>
      files (get_picture lib e1 fs) = fs(picture_path (picture_name lib pic_bytes) \<mapsto> pic_bytes) \<and>
      picture_field (get_picture lib e2 (files (get_picture lib e1 fs))) =
        picture_field (get_picture lib e1 fs) \<and>
      files (get_picture lib e2 (files (get_picture lib e1 fs))) = files (get_picture lib e1 fs))"
proof (intro conjI impI)
  show "picture_name lib pic_bytes = hexdigest (sha1 lib pic_bytes) @ ''.png''"
    by (simp add: picture_name_def)
  show "(picture_name lib b1 = picture_name lib b2) = (sha1 lib b1 = sha1 lib b2)"
    by (auto simp: picture_name_def dest: hexdigest_inj)
  assume h: "screenshot_as_png e1 0 = Found pic_bytes \<and> screenshot_as_png e2 0 = Found pic_bytes"
  then have e1: "screenshot_as_png e1 0 = Found pic_bytes" and e2: "screenshot_as_png e2 0 = Found pic_bytes"
    by simp_all
  show "picture_field (get_picture lib e1 fs) = Some (picture_name lib pic_bytes)"
    by (simp add: get_picture_found [OF e1])
  show "files (get_picture lib e1 fs) = fs(picture_path (picture_name lib pic_bytes) \<mapsto> pic_bytes)"
    by (simp add: get_picture_found [OF e1])
  show "picture_field (get_picture lib e2 (files (get_picture lib e1 fs))) =
        picture_field (get_picture lib e1 fs)"
    by (simp add: get_picture_found [OF e1] get_picture_found [OF e2])
  show "files (get_picture lib e2 (files (get_picture lib e1 fs))) = files (get_picture lib e1 fs)"
    by (simp add: get_picture_found [OF e1] get_picture_found [OF e2])
qed



text \<open>
  The claim with the stand-in hash, which collides on \<open>[1, 2, 3]\<close> and \<open>[1, 2, 4]\<close> and
  tells \<open>[1, 3, 3]\<close> apart, and on two sample articles with the same image.
\<close>

theorem picture_name_of_bytes_witness:
  "picture_name example_library [1, 2, 3] = ''0102.png'' \<and>
   picture_name example_library [1, 2, 3] = picture_name example_library [1, 2, 4] \<and>
   picture_name example_library [1, 2, 3] \<noteq> picture_name example_library [1, 3, 3] \<and>
   files (get_picture example_library (example_element (\<lambda>k. Found 0) (\<lambda>k. Found [1, 2, 3]))
      (files (get_picture example_library
         (example_element (\<lambda>k. NoSuchElementException) (\<lambda>k. Found [1, 2, 3])) Map.empty))) =
     [''output/0102.png'' \<mapsto> [1, 2, 3]]"
proof -
  let ?e1 = "example_element (\<lambda>k. NoSuchElementException) (\<lambda>k. Found [1, 2, 3])"
  let ?e2 = "example_element (\<lambda>k. Found 0) (\<lambda>k. Found [1, 2, 3])"
  have s: "sha1 example_library [1, 2, 3] = [1, 2]"
    by (simp add: example_library_def)
  have hd: "hexdigest [1, 2] = ''0102''"
    by (simp add: hexdigest_def hex_byte_def hex_digit_def)
  have n: "picture_name example_library [1, 2, 3] = ''0102.png''"
    using picture_name_of_bytes [of example_library "[1, 2, 3]"] by (simp add: s hd)
  have c: "sha1 example_library [1, 2, 3] = sha1 example_library [1, 2, 4]"
    and d: "sha1 example_library [1, 2, 3] \<noteq> sha1 example_library [1, 3, 3]"
    by (simp_all add: example_library_def)
  have h: "screenshot_as_png ?e1 0 = Found [1, 2, 3] \<and> screenshot_as_png ?e2 0 = Found [1, 2, 3]"
    by (simp add: example_element_def)
  have eq: "picture_name example_library [1, 2, 3] = picture_name example_library [1, 2, 4]"
    using picture_name_of_bytes [of example_library "[1, 2, 3]" "[1, 2, 3]" "[1, 2, 4]"] c
    by blast
  have ne: "picture_name example_library [1, 2, 3] \<noteq> picture_name example_library [1, 3, 3]"
    using picture_name_of_bytes [of example_library "[1, 2, 3]" "[1, 2, 3]" "[1, 3, 3]"] d
    by blast
  have f: "files (get_picture example_library ?e2
             (files (get_picture example_library ?e1 Map.empty))) =
           Map.empty(picture_path (picture_name example_library [1, 2, 3]) \<mapsto> [1, 2, 3])"
  proof -
    have "files (get_picture example_library ?e1 Map.empty) =
        Map.empty(picture_path (picture_name example_library [1, 2, 3]) \<mapsto> [1, 2, 3])"
      and "files (get_picture example_library ?e2
             (files (get_picture example_library ?e1 Map.empty))) =
           files (get_picture example_library ?e1 Map.empty)"
      using picture_name_of_bytes [of example_library "[1, 2, 3]" "[1, 2, 3]" "[1, 2, 3]"
          ?e1 ?e2 Map.empty] h
      by blast+
    then show ?thesis by metis
  qed
  have p: "picture_path ''0102.png'' = ''output/0102.png''"
    by (simp add: picture_path_def OUTPUT_DIR_def)
  have g: "files (get_picture example_library ?e2
             (files (get_picture example_library ?e1 Map.empty))) =
           [''output/0102.png'' \<mapsto> [1, 2, 3]]"
    using f by (simp only: n p)
  show ?thesis
    using n eq ne g by blast
qed

subsection \<open>One round of the loop over the result elements\<close>

text \<open>
  With five attempts, every field is assigned by the time the constructor reads it, so
  \<^verbatim>\<open>News.__init__\<close> returns.
\<close>

lemma get_text_assigned:
  "0 < a \<or> field \<noteq> None \<Longrightarrow> get_text a text k field \<noteq> None"
  by (induction a arbitrary: k field) (auto split: lookup.splits)

lemma get_date_loop_assigned:
  "0 < a \<or> field \<noteq> None \<Longrightarrow> get_date_loop lib a stamp k field \<noteq> None"
  by (induction a arbitrary: k field) (auto split: lookup.splits)

lemma get_picture_loop_assigned:
  "0 < a \<or> picture_field st \<noteq> None \<Longrightarrow>
   picture_field (get_picture_loop lib shot a st) \<noteq> None"
  by (induction a arbitrary: st) (auto split: lookup.splits)

lemma News_init_returns:
  "\<exists>n. News_init lib e phrase fs = Inr (n, files (get_picture lib e fs)) \<and>
       get_date lib e = Some (date n)"
proof -
  have pos: "0 < ATTEMPTS" by (simp add: ATTEMPTS_def)
  obtain t where t: "get_title e = Some t"
    using get_text_assigned [of ATTEMPTS None "title_text e" 0] pos
    by (auto simp: get_title_def)
  obtain d where d: "get_date lib e = Some d"
    using get_date_loop_assigned [of ATTEMPTS None lib "data_timestamp e" 0] pos
    by (auto simp: get_date_def)
  obtain ds where ds: "get_description e = Some ds"
    using get_text_assigned [of ATTEMPTS None "description_text e" 0] pos
    by (auto simp: get_description_def)
  obtain p where p: "picture_field (get_picture lib e fs) = Some p"
    using get_picture_loop_assigned [of ATTEMPTS _ lib "screenshot_as_png e"] pos
    by (auto simp: get_picture_def)
  show ?thesis
    by (simp add: News_init_def t d ds p)
qed

lemma step_for_body:
  "control st = For_loop (e # rest) \<Longrightarrow> now_timestamp e < timeout c \<Longrightarrow>
   remaining_faults st \<noteq> 0 \<Longrightarrow> step lib c browser st = for_body lib c e rest st"
  by simp

lemma for_body_empty_date:
  "get_date lib e = Some [] \<Longrightarrow>
   for_body lib c e rest st =
     st\<lparr>output_files := files (get_picture lib e (output_files st)),
         extracted := Suc (extracted st), control := For_loop rest,
         remaining_faults := remaining_faults st - 1\<rparr>"
  using News_init_returns [of lib e "search_phrase c" "output_files st"]
  by (auto simp: for_body_def Let_def)

lemma for_body_dated:
  "get_date lib e = Some d \<Longrightarrow> d \<noteq> [] \<Longrightarrow>
   \<exists>n. News_init lib e (search_phrase c) (output_files st) =
         Inr (n, files (get_picture lib e (output_files st))) \<and> date n = d \<and>
       for_body lib c e rest st =
         (if time_difference_in_months lib d (now c) > months c
          then st\<lparr>output_files := files (get_picture lib e (output_files st)),
                  extracted := Suc (extracted st), control := For_loop rest,
                  remaining_faults := remaining_faults st - 1\<rparr>
          else st\<lparr>output_files := files (get_picture lib e (output_files st)),
                  extracted := Suc (extracted st), control := For_loop rest,
                  worksheet := save_elements n (worksheet st),
                  remaining_faults := FAULTS_TOLERANCE\<rparr>)"
  using News_init_returns [of lib e "search_phrase c" "output_files st"]
  by (auto simp: for_body_def Let_def)

lemma example_collector_fields:
  "months example_collector = 0" "timeout example_collector = 170"
  "now example_collector = ''2024-05-20T10:00:00''" "search_phrase example_collector = ''rise''"
  by (simp_all add: example_collector_def APNewsCollector_init_def)

lemma example_state_fields:
  "control (example_state es) = For_loop es" "remaining_faults (example_state es) = 3"
  "worksheet (example_state es) = []" "output_files (example_state es) = Map.empty"
  by (simp_all add: example_state_def get_news_start_def)

lemma example_dates:
  "get_date lib (example_element (\<lambda>k. NoSuchElementException) shot) = Some []"
  "get_date example_library (example_element (\<lambda>k. Found 0) shot) = Some ''1970-01-01T00:00:00''"
  "get_date example_library (example_element (\<lambda>k. Found 1714561200000) shot) =
     Some ''2024-05-01T12:00:00''"
  by (simp_all add: get_date_def ATTEMPTS_def eval_nat_numeral example_element_def
      example_library_def)

text \<open>
  Claim C6. When the loop reaches an element (the deadline has not passed and faults
  are left) and the date that the constructor derives for it is the empty string, the
  step appends no row to the worksheet, takes exactly one from the remaining faults and
  goes on with the next element.
\<close>

theorem empty_date_skipped:
  "control st = For_loop (e # rest) \<and> now_timestamp e < timeout c \<and>
   remaining_faults st \<noteq> 0 \<and> get_date lib e = Some [] \<longrightarrow>
   worksheet (step lib c browser st) = worksheet st \<and>
   remaining_faults (step lib c browser st) = remaining_faults st - 1 \<and>
   control (step lib c browser st) = For_loop rest"
  by (auto simp del: step.simps simp: step_for_body for_body_empty_date)

text \<open>
  The claim at an element whose timestamp is missing at every lookup, with three faults
  left.
\<close>

theorem empty_date_skipped_witness:
  "worksheet (step example_library example_collector example_browser
      (example_state [example_element (\<lambda>k. NoSuchElementException) (\<lambda>k. Found [1, 2, 3])])) = [] \<and>
   remaining_faults (step example_library example_collector example_browser
      (example_state [example_element (\<lambda>k. NoSuchElementException) (\<lambda>k. Found [1, 2, 3])])) = 2 \<and>
   control (step example_library example_collector example_browser
      (example_state [example_element (\<lambda>k. NoSuchElementException) (\<lambda>k. Found [1, 2, 3])])) =
     For_loop []"
proof -
  let ?e = "example_element (\<lambda>k. NoSuchElementException) (\<lambda>k. Found [1, 2, 3])"
  have h: "control (example_state [?e]) = For_loop (?e # []) \<and>
      now_timestamp ?e < timeout example_collector \<and>
      remaining_faults (example_state [?e]) \<noteq> 0 \<and>
      get_date example_library ?e = Some []"
    by (simp add: example_state_fields example_collector_fields example_dates)
       (simp add: example_element_def)
  show ?thesis
    using empty_date_skipped [of "example_state [?e]" ?e "[]" example_collector example_library
        example_browser] h
    by (simp del: step.simps add: example_state_fields)
qed

text \<open>
  Claim C2. When the loop reaches an element and the constructor derives a non-empty
  date for it, the calendar's month difference between that date and the start of the
  session decides: if it is greater than the cutoff of the collector, no row is appended
  and the remaining faults go down by exactly one; otherwise the row of this item is
  appended to the worksheet and the remaining faults are set to the constant 5.
\<close>

theorem dated_item_cutoff:
  "control st = For_loop (e # rest) \<and> now_timestamp e < timeout c \<and>
   remaining_faults st \<noteq> 0 \<and> get_date lib e = Some d \<and> d \<noteq> [] \<longrightarrow>
   (time_difference_in_months lib d (now c) > months c \<longrightarrow>
      worksheet (step lib c browser st) = worksheet st \<and>
      remaining_faults (step lib c browser st) = remaining_faults st - 1) \<and>
   (\<not> time_difference_in_months lib d (now c) > months c \<longrightarrow>
      (\<exists>n fs. News_init lib e (search_phrase c) (output_files st) = Inr (n, fs) \<and>
         date n = d \<and>
         worksheet (step lib c browser st) = save_elements n (worksheet st)) \<and>
      remaining_faults (step lib c browser st) = FAULTS_TOLERANCE \<and>
      FAULTS_TOLERANCE = 5)"
proof (intro impI)
  assume h: "control st = For_loop (e # rest) \<and> now_timestamp e < timeout c \<and>
   remaining_faults st \<noteq> 0 \<and> get_date lib e = Some d \<and> d \<noteq> []"
  then have s: "step lib c browser st = for_body lib c e rest st"
    using step_for_body [of st e rest c lib browser] by blast
  from h obtain n where n:
    "News_init lib e (search_phrase c) (output_files st) =
         Inr (n, files (get_picture lib e (output_files st)))" "date n = d"
    "for_body lib c e rest st =
         (if time_difference_in_months lib d (now c) > months c
          then st\<lparr>output_files := files (get_picture lib e (output_files st)),
                  extracted := Suc (extracted st), control := For_loop rest,
                  remaining_faults := remaining_faults st - 1\<rparr>
          else st\<lparr>output_files := files (get_picture lib e (output_files st)),
                  extracted := Suc (extracted st), control := For_loop rest,
                  worksheet := save_elements n (worksheet st),
                  remaining_faults := FAULTS_TOLERANCE\<rparr>)"
    using for_body_dated [of lib e d c st rest] by blast
  show "(time_difference_in_months lib d (now c) > months c \<longrightarrow>
      worksheet (step lib c browser st) = worksheet st \<and>
      remaining_faults (step lib c browser st) = remaining_faults st - 1) \<and>
   (\<not> time_difference_in_months lib d (now c) > months c \<longrightarrow>
      (\<exists>n fs. News_init lib e (search_phrase c) (output_files st) = Inr (n, fs) \<and>
         date n = d \<and>
         worksheet (step lib c browser st) = save_elements n (worksheet st)) \<and>
      remaining_faults (step lib c browser st) = FAULTS_TOLERANCE \<and>
      FAULTS_TOLERANCE = 5)"
    unfolding s n(3) using n(1,2) by (auto simp: FAULTS_TOLERANCE_def)
qed


text \<open>
  The sample article with a recent timestamp, as the constructor reads it.
\<close>

lemma example_news:
  "News_init example_library (example_element (\<lambda>k. Found 1714561200000) (\<lambda>k. NoSuchElementException))
     ''rise'' Map.empty =
   Inr (\<lparr>title = ''Prices rise to $11.1'', date = ''2024-05-01T12:00:00'',
         description = ''Rise and rise again'', picture = [], count = 2, money = True\<rparr>,
        Map.empty)"
proof -
  let ?e = "example_element (\<lambda>k. Found 1714561200000) (\<lambda>k. NoSuchElementException)"
  have t: "get_title ?e = Some ''Prices rise to $11.1''"
    by (simp add: get_title_def ATTEMPTS_def eval_nat_numeral example_element_def)
  have ds: "get_description ?e = Some ''Rise and rise again''"
    by (simp add: get_description_def ATTEMPTS_def eval_nat_numeral example_element_def)
  have p: "get_picture example_library ?e Map.empty =
      \<lparr>picture_field = Some [], attempts_left = ATTEMPTS, lookups = Suc 0, files = Map.empty\<rparr>"
    by (simp add: get_picture_def ATTEMPTS_def eval_nat_numeral example_element_def)
  have c: "get_count ''Prices rise to $11.1'' ''Rise and rise again'' ''rise'' = 2"
    by (simp add: get_count_def str_count_def)
  have m: "get_money ''Prices rise to $11.1'' ''Rise and rise again''"
    by (simp add: get_money_def py_or_def re_search_def money_pattern_def digit_def)
  show ?thesis
    by (simp add: News_init_def t ds p c m example_dates)
qed

text \<open>
  The claim at an article of 1970, which is skipped, and at one of the same month, which
  is saved, both with three faults left.
\<close>

theorem dated_item_cutoff_witness:
  "worksheet (step example_library example_collector example_browser
      (example_state [example_element (\<lambda>k. Found 0) (\<lambda>k. NoSuchElementException)])) = [] \<and>
   remaining_faults (step example_library example_collector example_browser
      (example_state [example_element (\<lambda>k. Found 0) (\<lambda>k. NoSuchElementException)])) = 2 \<and>
   worksheet (step example_library example_collector example_browser
      (example_state [example_element (\<lambda>k. Found 1714561200000)
         (\<lambda>k. NoSuchElementException)])) =
     [[Str ''Prices rise to $11.1'', Str ''2024-05-01T12:00:00'', Str ''Rise and rise again'',
       Str [], Num 2, Str ''True'']] \<and>
   remaining_faults (step example_library example_collector example_browser
      (example_state [example_element (\<lambda>k. Found 1714561200000)
         (\<lambda>k. NoSuchElementException)])) = 5"
proof -
  let ?old = "example_element (\<lambda>k. Found 0) (\<lambda>k. NoSuchElementException)"
  let ?new = "example_element (\<lambda>k. Found 1714561200000) (\<lambda>k. NoSuchElementException)"
  have ts: "now_timestamp ?old = 10" "now_timestamp ?new = 10"
    by (simp_all add: example_element_def)
  have h_old: "control (example_state [?old]) = For_loop (?old # []) \<and>
      now_timestamp ?old < timeout example_collector \<and>
      remaining_faults (example_state [?old]) \<noteq> 0 \<and>
      get_date example_library ?old = Some ''1970-01-01T00:00:00'' \<and>
      ''1970-01-01T00:00:00'' \<noteq> []"
    by (simp add: example_state_fields example_collector_fields example_dates ts)
  have h_new: "control (example_state [?new]) = For_loop (?new # []) \<and>
      now_timestamp ?new < timeout example_collector \<and>
      remaining_faults (example_state [?new]) \<noteq> 0 \<and>
      get_date example_library ?new = Some ''2024-05-01T12:00:00'' \<and>
      ''2024-05-01T12:00:00'' \<noteq> []"
    by (simp add: example_state_fields example_collector_fields example_dates ts)
  have d_old: "time_difference_in_months example_library ''1970-01-01T00:00:00''
      (now example_collector) > months example_collector"
    and d_new: "\<not> time_difference_in_months example_library ''2024-05-01T12:00:00''
      (now example_collector) > months example_collector"
    by (simp_all add: example_collector_fields example_library_def)
  have old: "worksheet (step example_library example_collector example_browser
        (example_state [?old])) = worksheet (example_state [?old]) \<and>
      remaining_faults (step example_library example_collector example_browser
        (example_state [?old])) = remaining_faults (example_state [?old]) - 1"
    using dated_item_cutoff [of "example_state [?old]" ?old "[]" example_collector
        example_library "''1970-01-01T00:00:00''" example_browser] h_old d_old
    by blast
  have new: "(\<exists>n fs. News_init example_library ?new (search_phrase example_collector)
          (output_files (example_state [?new])) = Inr (n, fs) \<and>
         worksheet (step example_library example_collector example_browser
           (example_state [?new])) = save_elements n (worksheet (example_state [?new]))) \<and>
      remaining_faults (step example_library example_collector example_browser
        (example_state [?new])) = FAULTS_TOLERANCE \<and> FAULTS_TOLERANCE = 5"
    using dated_item_cutoff [of "example_state [?new]" ?new "[]" example_collector
        example_library "''2024-05-01T12:00:00''" example_browser] h_new d_new
    by blast
  then obtain n fs where n: "News_init example_library ?new ''rise'' Map.empty = Inr (n, fs)"
    "worksheet (step example_library example_collector example_browser
           (example_state [?new])) = save_elements n []"
    by (auto simp del: step.simps simp: example_state_fields example_collector_fields)
  from n(1) have "n = \<lparr>title = ''Prices rise to $11.1'', date = ''2024-05-01T12:00:00'',
         description = ''Rise and rise again'', picture = [], count = 2, money = True\<rparr>"
    by (simp add: example_news)
  then have row: "save_elements n [] =
     [[Str ''Prices rise to $11.1'', Str ''2024-05-01T12:00:00'', Str ''Rise and rise again'',
       Str [], Num 2, Str ''True'']]"
    by (simp add: save_elements_def)
  show ?thesis
    using old new n(2) row by (simp del: step.simps add: example_state_fields)
qed

text \<open>
  Claim C5. For a constructor argument \<open>m\<close> that is not negative, the cutoff that the
  collector stores is 0 when \<open>m\<close> is 0 and \<open>m - 1\<close> otherwise, so the arguments 0 and 1
  give the same cutoff. An element that the loop reaches with a non-empty date gets its
  row appended exactly when the month difference between its date and the start of the
  session is at most that stored value; otherwise the worksheet stays as it is.
\<close>

theorem months_normalised:
  "(0 \<le> m \<longrightarrow>
      months (APNewsCollector_init phrase cats m sort_arg t now_text now_seconds) =
        (if m = 0 then 0 else m - 1)) \<and>
   months (APNewsCollector_init phrase cats 0 sort_arg t now_text now_seconds) =
     months (APNewsCollector_init phrase cats 1 sort_arg t now_text now_seconds) \<and>
   (c = APNewsCollector_init phrase cats m sort_arg t now_text now_seconds \<and> 0 \<le> m \<and>
    control st = For_loop (e # rest) \<and> now_timestamp e < timeout c \<and>
    remaining_faults st \<noteq> 0 \<and> get_date lib e = Some d \<and> d \<noteq> [] \<longrightarrow>
      (\<exists>row. worksheet (step lib c browser st) = worksheet st @ [row]) =
        (time_difference_in_months lib d now_text \<le> (if m = 0 then 0 else m - 1)) \<and>
      (worksheet (step lib c browser st) = worksheet st) =
        (\<not> time_difference_in_months lib d now_text \<le> (if m = 0 then 0 else m - 1)))"
proof (intro conjI impI)
  show "months (APNewsCollector_init phrase cats m sort_arg t now_text now_seconds) =
        (if m = 0 then 0 else m - 1)"
    by (simp add: APNewsCollector_init_def)
  show "months (APNewsCollector_init phrase cats 0 sort_arg t now_text now_seconds) =
     months (APNewsCollector_init phrase cats 1 sort_arg t now_text now_seconds)"
    by (simp add: APNewsCollector_init_def)
next
  assume h: "c = APNewsCollector_init phrase cats m sort_arg t now_text now_seconds \<and> 0 \<le> m \<and>
    control st = For_loop (e # rest) \<and> now_timestamp e < timeout c \<and>
    remaining_faults st \<noteq> 0 \<and> get_date lib e = Some d \<and> d \<noteq> []"
  then have c: "months c = (if m = 0 then 0 else m - 1)" "now c = now_text"
    by (simp_all add: APNewsCollector_init_def)
  from h have s: "step lib c browser st = for_body lib c e rest st"
    using step_for_body [of st e rest c lib browser] by blast
  from h obtain n where n:
    "for_body lib c e rest st =
         (if time_difference_in_months lib d (now c) > months c
          then st\<lparr>output_files := files (get_picture lib e (output_files st)),
                  extracted := Suc (extracted st), control := For_loop rest,
                  remaining_faults := remaining_faults st - 1\<rparr>
          else st\<lparr>output_files := files (get_picture lib e (output_files st)),
                  extracted := Suc (extracted st), control := For_loop rest,
                  worksheet := save_elements n (worksheet st),
                  remaining_faults := FAULTS_TOLERANCE\<rparr>)"
    using for_body_dated [of lib e d c st rest] by blast
  show "(\<exists>row. worksheet (step lib c browser st) = worksheet st @ [row]) =
        (time_difference_in_months lib d now_text \<le> (if m = 0 then 0 else m - 1))"
    unfolding s n c by (simp add: save_elements_def)
  show "(worksheet (step lib c browser st) = worksheet st) =
        (\<not> time_difference_in_months lib d now_text \<le> (if m = 0 then 0 else m - 1))"
    unfolding s n c by (simp add: save_elements_def)
qed

text \<open>
  The claim for the arguments 1 and 3, and at the two sample articles under the
  collector made with the argument 1.
\<close>

theorem months_normalised_witness:
  "months (APNewsCollector_init ''rise'' [] 1 ''Newest'' 170 ''2024-05-20T10:00:00'' 0) = 0 \<and>
   months (APNewsCollector_init ''rise'' [] 3 ''Newest'' 170 ''2024-05-20T10:00:00'' 0) = 2 \<and>
   (\<exists>row. worksheet (step example_library example_collector example_browser
      (example_state [example_element (\<lambda>k. Found 1714561200000)
         (\<lambda>k. NoSuchElementException)])) = [] @ [row]) \<and>
   worksheet (step example_library example_collector example_browser
      (example_state [example_element (\<lambda>k. Found 0) (\<lambda>k. NoSuchElementException)])) = []"
proof -
  let ?old = "example_element (\<lambda>k. Found 0) (\<lambda>k. NoSuchElementException)"
  let ?new = "example_element (\<lambda>k. Found 1714561200000) (\<lambda>k. NoSuchElementException)"
  have ts: "now_timestamp ?old = 10" "now_timestamp ?new = 10"
    by (simp_all add: example_element_def)
  have m1: "months (APNewsCollector_init ''rise'' [] 1 ''Newest'' 170 ''2024-05-20T10:00:00'' 0) = 0"
    using months_normalised [of 1 "''rise''" "[]" "''Newest''" 170 "''2024-05-20T10:00:00''" 0]
    by simp
  have m3: "months (APNewsCollector_init ''rise'' [] 3 ''Newest'' 170 ''2024-05-20T10:00:00'' 0) = 2"
    using months_normalised [of 3 "''rise''" "[]" "''Newest''" 170 "''2024-05-20T10:00:00''" 0]
    by simp
  have h_old: "example_collector =
        APNewsCollector_init ''rise'' [] 1 ''Newest'' 170 ''2024-05-20T10:00:00'' 0 \<and>
      (0::int) \<le> 1 \<and> control (example_state [?old]) = For_loop (?old # []) \<and>
      now_timestamp ?old < timeout example_collector \<and>
      remaining_faults (example_state [?old]) \<noteq> 0 \<and>
      get_date example_library ?old = Some ''1970-01-01T00:00:00'' \<and>
      ''1970-01-01T00:00:00'' \<noteq> []"
    by (simp add: example_state_fields example_collector_fields example_dates ts)
       (simp add: example_collector_def)
  have h_new: "example_collector =
        APNewsCollector_init ''rise'' [] 1 ''Newest'' 170 ''2024-05-20T10:00:00'' 0 \<and>
      (0::int) \<le> 1 \<and> control (example_state [?new]) = For_loop (?new # []) \<and>
      now_timestamp ?new < timeout example_collector \<and>
      remaining_faults (example_state [?new]) \<noteq> 0 \<and>
      get_date example_library ?new = Some ''2024-05-01T12:00:00'' \<and>
      ''2024-05-01T12:00:00'' \<noteq> []"
    by (simp add: example_state_fields example_collector_fields example_dates ts)
       (simp add: example_collector_def)
  have d_old: "\<not> time_difference_in_months example_library ''1970-01-01T00:00:00''
      ''2024-05-20T10:00:00'' \<le> (if (1::int) = 0 then 0 else 1 - 1)"
    and d_new: "time_difference_in_months example_library ''2024-05-01T12:00:00''
      ''2024-05-20T10:00:00'' \<le> (if (1::int) = 0 then 0 else 1 - 1)"
    by (simp_all add: example_library_def)
  have new: "\<exists>row. worksheet (step example_library example_collector example_browser
      (example_state [?new])) = worksheet (example_state [?new]) @ [row]"
    using months_normalised [of 1 "''rise''" "[]" "''Newest''" 170 "''2024-05-20T10:00:00''" 0
        example_collector "example_state [?new]" ?new "[]" example_library
        "''2024-05-01T12:00:00''" example_browser] h_new d_new
    by blast
  have old: "worksheet (step example_library example_collector example_browser
      (example_state [?old])) = worksheet (example_state [?old])"
    using months_normalised [of 1 "''rise''" "[]" "''Newest''" 170 "''2024-05-20T10:00:00''" 0
        example_collector "example_state [?old]" ?old "[]" example_library
        "''1970-01-01T00:00:00''" example_browser] h_old d_old
    by blast
  show ?thesis
    using m1 m3 new old by (simp del: step.simps add: example_state_fields)
qed

subsection \<open>The page counter\<close>

text \<open>
  Claim C1, at the page counter \<^verbatim>\<open>2 of 10\<close>. The two parts of the counter are compared
  as strings, and \<^verbatim>\<open>"2" < "10"\<close> is false in that order, so the loop returns behind the
  second of ten pages without a click on the next-page control. At \<^verbatim>\<open>2 of 9\<close> the same
  step clicks and goes back to the test of the \<^verbatim>\<open>while\<close> loop.
\<close>

theorem next_page_by_string_order:
  "str_split ''2 of 10'' '' of '' = Inr [''2'', ''10''] \<and>
   \<not> str_less ''2'' ''10'' \<and>
   step lib c (\<lambda>n. \<lparr>elements = [], page_counts = ''2 of 10''\<rparr>) (st\<lparr>control := For_loop []\<rparr>) =
     st\<lparr>control := Returned\<rparr> \<and>
   step lib c (\<lambda>n. \<lparr>elements = [], page_counts = ''2 of 9''\<rparr>) (st\<lparr>control := For_loop []\<rparr>) =
     st\<lparr>next_page_clicks := Suc (next_page_clicks st), control := While_test\<rparr>"
  by (simp add: after_for_def str_split_def)

subsection \<open>The fault counter along a run\<close>

lemma get_news_Suc:
  "get_news lib c browser rows fs (Suc k) = step lib c browser (get_news lib c browser rows fs k)"
  by (simp add: get_news_def)

lemma get_news_0: "get_news lib c browser rows fs 0 = get_news_start rows fs"
  by (simp add: get_news_def)

lemma after_for_keeps:
  "remaining_faults (after_for counts st) = remaining_faults st \<and>
   worksheet (after_for counts st) = worksheet st \<and>
   extracted (after_for counts st) = extracted st \<and>
   next_page_clicks (after_for counts st) \<le> Suc (next_page_clicks st) \<and>
   (next_page_clicks (after_for counts st) = next_page_clicks st \<or>
    control (after_for counts st) = While_test)"
  by (simp add: after_for_def split: sum.splits prod.splits)

lemma for_body_change:
  "(remaining_faults (for_body lib c e rest st) = remaining_faults st - 1 \<and>
    worksheet (for_body lib c e rest st) = worksheet st \<or>
    remaining_faults (for_body lib c e rest st) = FAULTS_TOLERANCE \<and>
    (\<exists>row. worksheet (for_body lib c e rest st) = worksheet st @ [row])) \<and>
   extracted (for_body lib c e rest st) = Suc (extracted st) \<and>
   next_page_clicks (for_body lib c e rest st) = next_page_clicks st"
proof -
  obtain n where n: "News_init lib e (search_phrase c) (output_files st) =
      Inr (n, files (get_picture lib e (output_files st)))"
    using News_init_returns [of lib e "search_phrase c" "output_files st"] by blast
  consider "date n = []"
    | "date n \<noteq> []" "time_difference_in_months lib (date n) (now c) > months c"
    | "date n \<noteq> []" "\<not> time_difference_in_months lib (date n) (now c) > months c"
    by blast
  then show ?thesis
  proof cases
    case 1
    then show ?thesis by (simp add: for_body_def n)
  next
    case 2
    then show ?thesis by (simp add: for_body_def n)
  next
    case 3
    then show ?thesis by (simp add: for_body_def n save_elements_def)
  qed
qed

lemma step_change:
  assumes nonneg: "0 \<le> remaining_faults st"
  shows "(remaining_faults (step lib c browser st) = remaining_faults st \<and>
    worksheet (step lib c browser st) = worksheet st \<and>
    extracted (step lib c browser st) = extracted st) \<or>
   (remaining_faults (step lib c browser st) = remaining_faults st - 1 \<and>
    0 < remaining_faults st \<and>
    worksheet (step lib c browser st) = worksheet st \<and>
    extracted (step lib c browser st) = Suc (extracted st)) \<or>
   (remaining_faults (step lib c browser st) = FAULTS_TOLERANCE \<and>
    (\<exists>row. worksheet (step lib c browser st) = worksheet st @ [row]) \<and>
    extracted (step lib c browser st) = Suc (extracted st))"
proof (cases "control st")
  case While_test
  then show ?thesis by simp
next
  case (For_loop es)
  show ?thesis
  proof (cases es)
    case Nil
    then show ?thesis using For_loop after_for_keeps [of "page_counts (browser (next_page_clicks st))" st]
      by simp
  next
    case (Cons e rest)
    show ?thesis
    proof (cases "now_timestamp e \<ge> timeout c \<or> remaining_faults st = 0")
      case True
      then show ?thesis using For_loop Cons by auto
    next
      case False
      from False have s: "step lib c browser st = for_body lib c e rest st"
        using For_loop Cons by simp
      from False nonneg have "0 < remaining_faults st" by simp
      then show ?thesis
        unfolding s using for_body_change [of lib c e rest st] by blast
    qed
  qed
next
  case Returned
  then show ?thesis by simp
next
  case (Raised err)
  then show ?thesis by simp
qed

lemma faults_in_range:
  "0 \<le> remaining_faults (get_news lib c browser rows fs k) \<and>
   remaining_faults (get_news lib c browser rows fs k) \<le> FAULTS_TOLERANCE"
proof (induction k)
  case 0
  show ?case by (simp add: get_news_0 get_news_start_def FAULTS_TOLERANCE_def)
next
  case (Suc k)
  then show ?case
    unfolding get_news_Suc
    using step_change [of "get_news lib c browser rows fs k" lib c browser]
    by (auto simp del: step.simps simp: FAULTS_TOLERANCE_def)
qed

lemma step_at_zero:
  assumes z: "remaining_faults st = 0"
  shows "remaining_faults (step lib c browser st) = 0 \<and>
   worksheet (step lib c browser st) = worksheet st \<and>
   extracted (step lib c browser st) = extracted st \<and>
   next_page_clicks (step lib c browser st) +
     (case control (step lib c browser st) of For_loop es \<Rightarrow> 1 | _ \<Rightarrow> 0) \<le>
   next_page_clicks st + (case control st of For_loop es \<Rightarrow> 1 | _ \<Rightarrow> (0::nat))"
proof (cases "control st")
  case While_test
  then show ?thesis using z by simp
next
  case (For_loop es)
  show ?thesis
  proof (cases es)
    case Nil
    then show ?thesis
      using For_loop z after_for_keeps [of "page_counts (browser (next_page_clicks st))" st]
      by (auto split: control.splits)
  next
    case (Cons e rest)
    then show ?thesis using For_loop z by simp
  qed
next
  case Returned
  then show ?thesis using z by simp
next
  case (Raised err)
  then show ?thesis using z by simp
qed

lemma run_at_zero:
  "remaining_faults (get_news lib c browser rows fs k) = 0 \<Longrightarrow>
   remaining_faults (get_news lib c browser rows fs (k + d)) = 0 \<and>
   worksheet (get_news lib c browser rows fs (k + d)) =
     worksheet (get_news lib c browser rows fs k) \<and>
   extracted (get_news lib c browser rows fs (k + d)) =
     extracted (get_news lib c browser rows fs k) \<and>
   next_page_clicks (get_news lib c browser rows fs (k + d)) +
     (case control (get_news lib c browser rows fs (k + d)) of For_loop es \<Rightarrow> 1 | _ \<Rightarrow> 0) \<le>
   next_page_clicks (get_news lib c browser rows fs k) +
     (case control (get_news lib c browser rows fs k) of For_loop es \<Rightarrow> 1 | _ \<Rightarrow> (0::nat))"
proof (induction d)
  case 0
  then show ?case by simp
next
  case (Suc d)
  then have z: "remaining_faults (get_news lib c browser rows fs (k + d)) = 0" by simp
  show ?case
    using Suc step_at_zero [OF z, of lib c browser]
    by (simp del: step.simps add: get_news_Suc)
qed

text \<open>
  Claim C10. Along every run of \<^verbatim>\<open>__get_news\<close> the remaining faults start at 5 and stay
  between 0 and 5. Each step either leaves the counter and the worksheet alone and
  constructs no item, or takes one from a counter that was positive while it skips the
  item it constructed, or appends the row of the item it constructed and sets the counter
  to 5. From a state where the counter is 0 on, the counter stays 0, no item is
  constructed, no row is appended, and at most one more next-page click is made.
\<close>

theorem fault_counter_invariant:
  "remaining_faults (get_news lib c browser rows fs 0) = 5 \<and>
   0 \<le> remaining_faults (get_news lib c browser rows fs k) \<and>
   remaining_faults (get_news lib c browser rows fs k) \<le> 5 \<and>
   ((remaining_faults (get_news lib c browser rows fs (Suc k)) =
       remaining_faults (get_news lib c browser rows fs k) \<and>
     worksheet (get_news lib c browser rows fs (Suc k)) =
       worksheet (get_news lib c browser rows fs k) \<and>
     extracted (get_news lib c browser rows fs (Suc k)) =
       extracted (get_news lib c browser rows fs k)) \<or>
    (remaining_faults (get_news lib c browser rows fs (Suc k)) =
       remaining_faults (get_news lib c browser rows fs k) - 1 \<and>
     0 < remaining_faults (get_news lib c browser rows fs k) \<and>
     worksheet (get_news lib c browser rows fs (Suc k)) =
       worksheet (get_news lib c browser rows fs k) \<and>
     extracted (get_news lib c browser rows fs (Suc k)) =
       Suc (extracted (get_news lib c browser rows fs k))) \<or>
    (remaining_faults (get_news lib c browser rows fs (Suc k)) = 5 \<and>
     (\<exists>row. worksheet (get_news lib c browser rows fs (Suc k)) =
        worksheet (get_news lib c browser rows fs k) @ [row]) \<and>
     extracted (get_news lib c browser rows fs (Suc k)) =
       Suc (extracted (get_news lib c browser rows fs k)))) \<and>
   (k \<le> j \<and> remaining_faults (get_news lib c browser rows fs k) = 0 \<longrightarrow>
      remaining_faults (get_news lib c browser rows fs j) = 0 \<and>
      worksheet (get_news lib c browser rows fs j) =
        worksheet (get_news lib c browser rows fs k) \<and>
      extracted (get_news lib c browser rows fs j) =
        extracted (get_news lib c browser rows fs k) \<and>
      next_page_clicks (get_news lib c browser rows fs j) \<le>
        next_page_clicks (get_news lib c browser rows fs k) + 1)"
proof (intro conjI impI)
  let ?G = "get_news lib c browser rows fs"
  show "remaining_faults (?G 0) = 5"
    by (simp add: get_news_0 get_news_start_def FAULTS_TOLERANCE_def)
  show "0 \<le> remaining_faults (?G k)" "remaining_faults (?G k) \<le> 5"
    using faults_in_range [of lib c browser rows fs k] by (simp_all add: FAULTS_TOLERANCE_def)
  have "0 \<le> remaining_faults (?G k)"
    using faults_in_range [of lib c browser rows fs k] by simp
  then show "(remaining_faults (?G (Suc k)) = remaining_faults (?G k) \<and>
     worksheet (?G (Suc k)) = worksheet (?G k) \<and>
     extracted (?G (Suc k)) = extracted (?G k)) \<or>
    (remaining_faults (?G (Suc k)) = remaining_faults (?G k) - 1 \<and>
     0 < remaining_faults (?G k) \<and>
     worksheet (?G (Suc k)) = worksheet (?G k) \<and>
     extracted (?G (Suc k)) = Suc (extracted (?G k))) \<or>
    (remaining_faults (?G (Suc k)) = 5 \<and>
     (\<exists>row. worksheet (?G (Suc k)) = worksheet (?G k) @ [row]) \<and>
     extracted (?G (Suc k)) = Suc (extracted (?G k)))"
    unfolding get_news_Suc
    using step_change [of "?G k" lib c browser] by (simp only: FAULTS_TOLERANCE_def)
next
  let ?G = "get_news lib c browser rows fs"
  assume h: "k \<le> j \<and> remaining_faults (?G k) = 0"
  then obtain d where d: "j = k + d" using le_Suc_ex by blast
  from h have z: "remaining_faults (?G k) = 0" by simp
  have slack: "(case control (?G k) of For_loop es \<Rightarrow> 1 | _ \<Rightarrow> (0::nat)) \<le> 1"
    by (simp split: control.splits)
  note r = run_at_zero [OF z, of d]
  show "remaining_faults (?G j) = 0" "worksheet (?G j) = worksheet (?G k)"
    "extracted (?G j) = extracted (?G k)"
    using r by (simp_all add: d)
  show "next_page_clicks (?G j) \<le> next_page_clicks (?G k) + 1"
    using r slack unfolding d by linarith
qed

text \<open>
  The sample run: one page of five elements without a date uses up the five faults at
  the last element of the page.
\<close>

lemma undated_step:
  assumes "control st = For_loop (e # rest)" "now_timestamp e < timeout c"
    "remaining_faults st \<noteq> 0" "get_date lib e = Some []"
  shows "control (step lib c browser st) = For_loop rest \<and>
    remaining_faults (step lib c browser st) = remaining_faults st - 1 \<and>
    next_page_clicks (step lib c browser st) = next_page_clicks st \<and>
    worksheet (step lib c browser st) = worksheet st \<and>
    extracted (step lib c browser st) = Suc (extracted st)"
  using assms by (simp del: step.simps add: step_for_body for_body_empty_date)

lemma example_run_page:
  "i \<le> 5 \<Longrightarrow>
   control (get_news example_library example_collector example_browser [] Map.empty (Suc i)) =
     For_loop (replicate (5 - i)
       (example_element (\<lambda>k. NoSuchElementException) (\<lambda>k. NoSuchElementException))) \<and>
   remaining_faults (get_news example_library example_collector example_browser [] Map.empty
     (Suc i)) = 5 - int i \<and>
   next_page_clicks (get_news example_library example_collector example_browser [] Map.empty
     (Suc i)) = 0 \<and>
   worksheet (get_news example_library example_collector example_browser [] Map.empty
     (Suc i)) = [] \<and>
   extracted (get_news example_library example_collector example_browser [] Map.empty
     (Suc i)) = i"
proof (induction i)
  case 0
  show ?case
    by (simp add: get_news_def get_news_start_def FAULTS_TOLERANCE_def example_browser_def)
next
  case (Suc i)
  let ?u = "example_element (\<lambda>k. NoSuchElementException) (\<lambda>k. NoSuchElementException)"
  let ?st = "get_news example_library example_collector example_browser [] Map.empty (Suc i)"
  from Suc have ih: "control ?st = For_loop (replicate (5 - i) ?u)"
    "remaining_faults ?st = 5 - int i" "next_page_clicks ?st = 0" "worksheet ?st = []"
    "extracted ?st = i"
    by simp_all
  from Suc.prems obtain m where m: "5 - i = Suc m" "5 - Suc i = m"
    by (cases "5 - i") auto
  have c: "control ?st = For_loop (?u # replicate m ?u)"
    using ih(1) m by simp
  have t: "now_timestamp ?u < timeout example_collector"
    by (simp add: example_element_def example_collector_fields)
  have f: "remaining_faults ?st \<noteq> 0" using ih(2) Suc.prems by simp
  have "get_date example_library ?u = Some []" by (rule example_dates(1))
  from undated_step [OF c t f this, of example_browser]
  show ?case
    unfolding get_news_Suc [of _ _ _ _ _ "Suc i"] using ih m by simp
qed

text \<open>
  The claim on the sample run: the counter is 0 after step 6, the page counter
  \<^verbatim>\<open>1 of 2\<close> then brings the one further click, and nothing else changes up to step 9.
\<close>

theorem fault_counter_invariant_witness:
  "remaining_faults (get_news example_library example_collector example_browser [] Map.empty 3) = 3 \<and>
   remaining_faults (get_news example_library example_collector example_browser [] Map.empty 6) = 0 \<and>
   next_page_clicks (get_news example_library example_collector example_browser [] Map.empty 6) = 0 \<and>
   next_page_clicks (get_news example_library example_collector example_browser [] Map.empty 7) = 1 \<and>
   remaining_faults (get_news example_library example_collector example_browser [] Map.empty 9) = 0 \<and>
   worksheet (get_news example_library example_collector example_browser [] Map.empty 9) = [] \<and>
   extracted (get_news example_library example_collector example_browser [] Map.empty 9) = 5 \<and>
   next_page_clicks (get_news example_library example_collector example_browser [] Map.empty 9) \<le> 1"
proof -
  let ?G = "get_news example_library example_collector example_browser [] Map.empty"
  have n: "(3::nat) = Suc 2" "(6::nat) = Suc 5" "(7::nat) = Suc 6" by simp_all
  have g3: "remaining_faults (?G 3) = 3"
    unfolding n using example_run_page [of 2] by simp
  have g6: "control (?G 6) = For_loop []" "remaining_faults (?G 6) = 0"
    "next_page_clicks (?G 6) = 0" "worksheet (?G 6) = []" "extracted (?G 6) = 5"
    unfolding n using example_run_page [of 5] by simp_all
  have g7: "next_page_clicks (?G 7) = 1"
    unfolding n(3) get_news_Suc using g6(1,3)
    by (simp add: example_browser_def after_for_def str_split_def)
  have h: "(6::nat) \<le> 9 \<and> remaining_faults (?G 6) = 0"
    using g6(2) by simp
  have "remaining_faults (?G 9) = 0 \<and> worksheet (?G 9) = worksheet (?G 6) \<and>
      extracted (?G 9) = extracted (?G 6) \<and> next_page_clicks (?G 9) \<le> next_page_clicks (?G 6) + 1"
    using fault_counter_invariant [of example_library example_collector example_browser "[]"
        Map.empty 6 9] h
    by blast
  then show ?thesis
    using g3 g6 g7 by simp
qed

subsection \<open>Filtering with no category\<close>

lemma lower_empty: "(lower l = []) = (l = [])"
  by (simp add: lower_def)

lemma category_set_empty: "category_set [] = Inr {|[]|}"
  by (simp add: category_set_def str_split_def lower_def)

lemma scan_labels_none_empty:
  "\<forall>l\<in>set labels. l \<noteq> [] \<Longrightarrow>
   scan_labels {|[]|} i labels = (map Read_label [i..<i + length labels], None)"
proof (induction labels arbitrary: i)
  case Nil
  show ?case by simp
next
  case (Cons l labels)
  then have "scan_labels {|[]|} (Suc i) labels =
      (map Read_label [Suc i..<Suc i + length labels], None)"
    by simp
  moreover have "[i..<i + length (l # labels)] = i # [Suc i..<Suc i + length labels]"
    by (simp add: upt_rec)
  ultimately show ?case using Cons.prems by (simp add: lower_empty)
qed

lemma scan_labels_first_empty:
  "j < length labels \<Longrightarrow> labels ! j = [] \<Longrightarrow> \<forall>k<j. labels ! k \<noteq> [] \<Longrightarrow>
   scan_labels {|[]|} i labels =
     (map Read_label [i..<Suc (i + j)] @ [Click_label (i + j)], Some [])"
proof (induction labels arbitrary: i j)
  case Nil
  then show ?case by simp
next
  case (Cons l labels)
  show ?case
  proof (cases j)
    case 0
    with Cons.prems show ?thesis by (simp add: lower_def)
  next
    case (Suc j')
    with Cons.prems have l: "l \<noteq> []" by auto
    from Suc Cons.prems have "j' < length labels" "labels ! j' = []"
      "\<forall>k<j'. labels ! k \<noteq> []"
      by auto
    then have "scan_labels {|[]|} (Suc i) labels =
        (map Read_label [Suc i..<Suc (Suc i + j')] @ [Click_label (Suc i + j')], Some [])"
      by (rule Cons.IH)
    moreover have "[i..<Suc (i + j)] = i # [Suc i..<Suc (Suc i + j')]"
      using Suc by (simp add: upt_rec)
    ultimately show ?thesis using l Suc by (simp add: lower_empty)
  qed
qed

lemma scan_labels_hit: "scan_labels cats i labels = (acts, Some t) \<Longrightarrow> t |\<in>| cats"
  by (induction labels arbitrary: i acts) (auto simp: Let_def split: if_splits prod.splits)

lemma filter_loop_stops:
  "filter_loop panel n False cats = []" "filter_loop panel n found {||} = []"
  by (simp_all add: filter_loop.simps)

lemma filter_loop_empty_category:
  "filter_loop panel 0 True {|[]|} = Click_filter_heading # fst (scan_labels {|[]|} 0 (panel 0))"
proof (cases "scan_labels {|[]|} 0 (panel 0)")
  case (Pair acts hit)
  show ?thesis
  proof (cases hit)
    case None
    with Pair show ?thesis
      by (subst filter_loop.simps) (simp add: filter_loop_stops)
  next
    case (Some t)
    have "t = []"
      using scan_labels_hit [of "{|[]|}" 0 "panel 0" acts t] Pair Some by simp
    with Pair Some show ?thesis
      by (subst filter_loop.simps) (simp add: filter_loop_stops)
  qed
qed


text \<open>
  Claim C9. Splitting the empty categories string on the comma gives the one piece
  \<open>[]\<close>, so the working set holds the empty string and is not empty. The loop then
  runs: it clicks the heading of the filter panel and goes through the labels. When no
  label is empty it reads every label of the panel and clicks none; when some label is
  empty it clicks the checkbox of the first such label and stops there. In either case
  the list of actions holds more than the sort selection, so the empty input is not a
  no-op.
\<close>

theorem empty_categories_still_scan:
  "str_split [] '','' = Inr [[]] \<and>
   category_set [] = Inr {|[]|} \<and>
   (categories c = [] \<longrightarrow>
      (\<exists>acts. filter_news c panel =
         Inr ((if sort_by c \<noteq> [] then [Select_sort (sort_by c)] else []) @
              Click_filter_heading # acts))) \<and>
   (categories c = [] \<and> (\<forall>l\<in>set (panel 0). l \<noteq> []) \<longrightarrow>
      filter_news c panel =
        Inr ((if sort_by c \<noteq> [] then [Select_sort (sort_by c)] else []) @
             Click_filter_heading # map Read_label [0..<length (panel 0)])) \<and>
   (categories c = [] \<and> j < length (panel 0) \<and> panel 0 ! j = [] \<and>
    (\<forall>k<j. panel 0 ! k \<noteq> []) \<longrightarrow>
      filter_news c panel =
        Inr ((if sort_by c \<noteq> [] then [Select_sort (sort_by c)] else []) @
             Click_filter_heading # map Read_label [0..<Suc j] @ [Click_label j]))"
proof (intro conjI impI)
  show "str_split [] '','' = Inr [[]]" by (simp add: str_split_def)
  show "category_set [] = Inr {|[]|}" by (rule category_set_empty)
next
  assume "categories c = []"
  then show "\<exists>acts. filter_news c panel =
         Inr ((if sort_by c \<noteq> [] then [Select_sort (sort_by c)] else []) @
              Click_filter_heading # acts)"
    by (simp add: filter_news_def category_set_empty filter_loop_empty_category)
next
  assume "categories c = [] \<and> (\<forall>l\<in>set (panel 0). l \<noteq> [])"
  then show "filter_news c panel =
        Inr ((if sort_by c \<noteq> [] then [Select_sort (sort_by c)] else []) @
             Click_filter_heading # map Read_label [0..<length (panel 0)])"
    using scan_labels_none_empty [of "panel 0" 0]
    by (simp add: filter_news_def category_set_empty filter_loop_empty_category)
next
  assume "categories c = [] \<and> j < length (panel 0) \<and> panel 0 ! j = [] \<and>
    (\<forall>k<j. panel 0 ! k \<noteq> [])"
  then show "filter_news c panel =
        Inr ((if sort_by c \<noteq> [] then [Select_sort (sort_by c)] else []) @
             Click_filter_heading # map Read_label [0..<Suc j] @ [Click_label j])"
    using scan_labels_first_empty [of j "panel 0" 0]
    by (simp add: filter_news_def category_set_empty filter_loop_empty_category)
qed

text \<open>
  The claim at a panel with two named labels, and at one with an unnamed label between
  them.
\<close>

theorem empty_categories_still_scan_witness:
  "filter_news example_collector (\<lambda>n. [''Sports'', ''World news'']) =
     Inr [Select_sort ''Newest'', Click_filter_heading, Read_label 0, Read_label 1] \<and>
   filter_news example_collector (\<lambda>n. [''Sports'', [], ''World news'']) =
     Inr [Select_sort ''Newest'', Click_filter_heading, Read_label 0, Read_label 1,
          Click_label 1]"
proof -
  have c: "categories example_collector = []" "sort_by example_collector = ''Newest''"
    by (simp_all add: example_collector_def APNewsCollector_init_def)
  have h1: "categories example_collector = [] \<and>
      (\<forall>l\<in>set ((\<lambda>n::nat. [''Sports'', ''World news'']) 0). l \<noteq> [])"
    using c by simp
  have h2: "categories example_collector = [] \<and>
      1 < length ((\<lambda>n::nat. [''Sports'', [], ''World news'']) 0) \<and>
      (\<lambda>n::nat. [''Sports'', [], ''World news'']) 0 ! 1 = [] \<and>
      (\<forall>k<1. (\<lambda>n::nat. [''Sports'', [], ''World news'']) 0 ! k \<noteq> [])"
    using c by simp
  have "filter_news example_collector (\<lambda>n. [''Sports'', ''World news'']) =
      Inr ((if sort_by example_collector \<noteq> [] then [Select_sort (sort_by example_collector)]
            else []) @
           Click_filter_heading #
           map Read_label [0..<length ((\<lambda>n::nat. [''Sports'', ''World news'']) 0)])"
    using empty_categories_still_scan [of example_collector "\<lambda>n. [''Sports'', ''World news'']"]
      h1 by blast
  moreover have "filter_news example_collector (\<lambda>n. [''Sports'', [], ''World news'']) =
      Inr ((if sort_by example_collector \<noteq> [] then [Select_sort (sort_by example_collector)]
            else []) @
           Click_filter_heading # map Read_label [0..<Suc 1] @ [Click_label 1])"
    using empty_categories_still_scan [of example_collector
        "\<lambda>n. [''Sports'', [], ''World news'']" 1] h2 by blast
  ultimately show ?thesis
    using c by (simp add: upt_rec)
qed

end
